theory Spec2Isabelle
  imports Complex_Main "HOL-Library.AList"
begin

section \<open>The model manager of the TorchANI service\<close>

text \<open>
  A shallow embedding of \<^verbatim>\<open>app/core/model_manager.py\<close> (class \<^verbatim>\<open>ModelManager\<close>) and
  of the settings it reads from \<^verbatim>\<open>app/config.py\<close>.

  \<^item> The two dictionaries \<^verbatim>\<open>models_in_memory\<close> and \<^verbatim>\<open>model_last_used\<close> are association
    lists in insertion order (a Python \<^verbatim>\<open>dict\<close> iterates in insertion order, and
    \<^verbatim>\<open>min\<close> returns the first minimal key it meets). \<^verbatim>\<open>d[k] = v\<close> is
    \<open>AList.update\<close> (in place when the key is there, appended otherwise), \<^verbatim>\<open>del d[k]\<close>
    is \<open>AList.delete\<close> after the check for \<^verbatim>\<open>KeyError\<close>.
  \<^item> Python floats (timestamps, the memory fraction, the threshold) are reals.
  \<^item> Every \<^verbatim>\<open>raise\<close> is a value \<open>Raise x\<close> of the result type.
  \<^item> The world outside the manager (the GPU, the clock, Redis, torchani) is a record of
    oracles \<open>env\<close>: the \<open>i\<close>-th call of an external function answers what the oracle
    says at \<open>i\<close>. The manager state counts the calls made so far, and keeps a trace of
    the external calls and unloads, in the order they happen.
  \<^item> The two \<^verbatim>\<open>while\<close> loops of \<^verbatim>\<open>_load_model\<close> may run forever, so they are
    partial functions into \<open>option\<close>: \<open>None\<close> is a call that never returns.
  \<^item> \<^verbatim>\<open>asyncio.Lock\<close> and the interleaving of coroutines are not modelled: calls run one
    after the other. Log lines are not modelled.
\<close>

subsection \<open>Exceptions and results\<close>

datatype exn =
    ValueError string
  | KeyError string
  | ZeroDivisionError
  | AttributeError
  | RedisError
  | TorchError

datatype 'a result = Return 'a | Raise exn

subsection \<open>Settings (app/config.py)\<close>

text \<open>The fields of \<^verbatim>\<open>Settings\<close> that the model manager reads, and their defaults.\<close>

record settings =
  redis_model_ttl :: int
  gpu_device :: string
  gpu_memory_threshold :: real
  model_max_loaded :: int
  model_preload :: "string list"

definition default_settings :: settings where
  "default_settings =
     \<lparr> redis_model_ttl = 300, gpu_device = ''cuda:0'', gpu_memory_threshold = 7 / 10,
       model_max_loaded = 2, model_preload = [] \<rparr>"

subsection \<open>The outside world\<close>

type_synonym handle = nat

record metadata =
  loaded_at :: real
  device_name :: string
  memory_usage :: real

datatype event =
    Unloaded string
  | TorchaniModels string bool
  | ToDevice string bool
  | RedisSetex string int metadata bool
  | RedisExpire string int bool
  | RedisGet string bool
  | RedisDelete string bool
  | RedisClose bool

record env =
  cuda_is_available :: bool
  memory_allocated :: "nat \<Rightarrow> nat"
  total_memory :: nat
  time_time :: "nat \<Rightarrow> real"
  redis_raises :: "nat \<Rightarrow> bool"
  redis_value :: "nat \<Rightarrow> string option"
  torchani_models :: "string \<Rightarrow> nat \<Rightarrow> handle option"
  to_device :: "handle \<Rightarrow> nat \<Rightarrow> handle option"

subsection \<open>The manager\<close>

record manager =
  redis_client :: bool
  models_in_memory :: "(string \<times> handle) list"
  model_last_used :: "(string \<times> real) list"
  device :: string
  n_gauge :: nat
  n_time :: nat
  n_redis :: nat
  n_torch :: nat
  trace :: "event list"

definition keys :: "('k \<times> 'v) list \<Rightarrow> 'k set" where
  "keys d = fst ` set d"

text \<open>
  \<^verbatim>\<open>ModelManager.__init__\<close>: no Redis client yet, both dictionaries empty, the device
  chosen by \<^verbatim>\<open>torch.cuda.is_available()\<close>.
\<close>

definition init :: "env \<Rightarrow> settings \<Rightarrow> manager" where
  "init e cfg =
     \<lparr> redis_client = False, models_in_memory = [], model_last_used = [],
       device = (if cuda_is_available e then gpu_device cfg else ''cpu''),
       n_gauge = 0, n_time = 0, n_redis = 0, n_torch = 0, trace = [] \<rparr>"

text \<open>\<^verbatim>\<open>time.time()\<close>.\<close>

definition now :: "env \<Rightarrow> manager \<Rightarrow> real \<times> manager" where
  "now e s = (time_time e (n_time s), s\<lparr>n_time := Suc (n_time s)\<rparr>)"

text \<open>
  A call on \<^verbatim>\<open>self.redis_client\<close>: \<^verbatim>\<open>AttributeError\<close> when the client is still
  \<^verbatim>\<open>None\<close>, otherwise whatever the store does at this call. The event records the call and
  whether it returned.
\<close>

definition redis_call :: "env \<Rightarrow> (bool \<Rightarrow> event) \<Rightarrow> manager \<Rightarrow> string option result \<times> manager" where
  "redis_call e ev s =
     (if \<not> redis_client s then (Raise AttributeError, s)
      else
        let i = n_redis s;
            ok = (\<not> redis_raises e i);
            s' = s\<lparr>n_redis := Suc i, trace := trace s @ [ev ok]\<rparr>
        in (if ok then Return (redis_value e i) else Raise RedisError, s'))"

definition metadata_key :: "string \<Rightarrow> string" where
  "metadata_key model_name = ''model:'' @ model_name @ '':metadata''"

text \<open>\<^verbatim>\<open>_get_gpu_memory_usage\<close>.\<close>

definition get_gpu_memory_usage :: "env \<Rightarrow> manager \<Rightarrow> real result \<times> manager" where
  "get_gpu_memory_usage e s =
     (if \<not> cuda_is_available e then (Return 0, s)
      else
        let allocated = memory_allocated e (n_gauge s);
            total = total_memory e;
            s' = s\<lparr>n_gauge := Suc (n_gauge s)\<rparr>
        in if total = 0 then (Raise ZeroDivisionError, s')
           else (Return (real allocated / real total), s'))"

text \<open>\<^verbatim>\<open>_check_memory_pressure\<close>.\<close>

definition check_memory_pressure :: "env \<Rightarrow> settings \<Rightarrow> manager \<Rightarrow> bool result \<times> manager" where
  "check_memory_pressure e cfg s =
     (case get_gpu_memory_usage e s of
        (Raise x, s') \<Rightarrow> (Raise x, s')
      | (Return usage, s') \<Rightarrow> (Return (usage > gpu_memory_threshold cfg), s'))"

text \<open>\<^verbatim>\<open>_unload_model\<close>.\<close>

definition unload_model :: "env \<Rightarrow> string \<Rightarrow> manager \<Rightarrow> unit result \<times> manager" where
  "unload_model e model_name s =
     (if model_name \<notin> keys (models_in_memory s) then (Return (), s)
      else
        let s1 = s\<lparr>models_in_memory := AList.delete model_name (models_in_memory s),
                   trace := trace s @ [Unloaded model_name]\<rparr>
        in if model_name \<notin> keys (model_last_used s1) then (Raise (KeyError model_name), s1)
           else
             let s2 = s1\<lparr>model_last_used := AList.delete model_name (model_last_used s1)\<rparr>
             in case redis_call e (RedisDelete (metadata_key model_name)) s2 of
                  (Raise x, s3) \<Rightarrow> (Raise x, s3)
                | (Return _, s3) \<Rightarrow> (Return (), s3))"

text \<open>
  \<^verbatim>\<open>min(self.model_last_used, key=self.model_last_used.get)\<close>: the keys are visited in
  insertion order and a later key replaces the best one only when its value is strictly
  smaller; on the empty dictionary \<^verbatim>\<open>min\<close> raises \<^verbatim>\<open>ValueError\<close>.
\<close>

fun min_entry :: "string \<times> real \<Rightarrow> (string \<times> real) list \<Rightarrow> string \<times> real" where
  "min_entry best [] = best"
| "min_entry best (x # xs) = min_entry (if snd x < snd best then x else best) xs"

definition min_key :: "(string \<times> real) list \<Rightarrow> string option" where
  "min_key d = (case d of [] \<Rightarrow> None | x # xs \<Rightarrow> Some (fst (min_entry x xs)))"

text \<open>\<^verbatim>\<open>_evict_oldest_model\<close>.\<close>

definition evict_oldest_model :: "env \<Rightarrow> manager \<Rightarrow> unit result \<times> manager" where
  "evict_oldest_model e s =
     (if models_in_memory s = [] then (Return (), s)
      else case min_key (model_last_used s) of
             None \<Rightarrow> (Raise (ValueError ''min() arg is an empty sequence''), s)
           | Some oldest_model \<Rightarrow> unload_model e oldest_model s)"

text \<open>The first loop of \<^verbatim>\<open>_load_model\<close>: evict while the GPU is under memory pressure.\<close>

partial_function (option) pressure_loop ::
  "env \<Rightarrow> settings \<Rightarrow> manager \<Rightarrow> (unit result \<times> manager) option" where
  "pressure_loop e cfg s =
     (case check_memory_pressure e cfg s of
        (Raise x, s1) \<Rightarrow> Some (Raise x, s1)
      | (Return pressure, s1) \<Rightarrow>
          if pressure \<and> models_in_memory s1 \<noteq> [] then
            (case evict_oldest_model e s1 of
               (Raise x, s2) \<Rightarrow> Some (Raise x, s2)
             | (Return _, s2) \<Rightarrow> pressure_loop e cfg s2)
          else Some (Return (), s1))"

text \<open>The second loop of \<^verbatim>\<open>_load_model\<close>: evict while the slot limit is reached.\<close>

partial_function (option) capacity_loop ::
  "env \<Rightarrow> settings \<Rightarrow> manager \<Rightarrow> (unit result \<times> manager) option" where
  "capacity_loop e cfg s =
     (if int (length (models_in_memory s)) \<ge> model_max_loaded cfg then
        (case evict_oldest_model e s of
           (Raise x, s1) \<Rightarrow> Some (Raise x, s1)
         | (Return _, s1) \<Rightarrow> capacity_loop e cfg s1)
      else Some (Return (), s))"

text \<open>The unfolding equations of the two loops evaluate them on concrete inputs.\<close>

declare pressure_loop.simps [code] capacity_loop.simps [code]

text \<open>
  The constructors \<^verbatim>\<open>torchani.models.ANI1ccx\<close>, \<^verbatim>\<open>ANI2x\<close>, \<^verbatim>\<open>ANI1x\<close> and
  \<^verbatim>\<open>model.to(self.device).double()\<close>: external calls that return a handle or raise.
\<close>

definition torchani_call :: "env \<Rightarrow> string \<Rightarrow> manager \<Rightarrow> handle result \<times> manager" where
  "torchani_call e name s =
     (let r = torchani_models e name (n_torch s);
          s' = s\<lparr>n_torch := Suc (n_torch s), trace := trace s @ [TorchaniModels name (r \<noteq> None)]\<rparr>
      in case r of None \<Rightarrow> (Raise TorchError, s') | Some m \<Rightarrow> (Return m, s'))"

definition to_device_call :: "env \<Rightarrow> string \<Rightarrow> handle \<Rightarrow> manager \<Rightarrow> handle result \<times> manager" where
  "to_device_call e name m s =
     (let r = to_device e m (n_torch s);
          s' = s\<lparr>n_torch := Suc (n_torch s), trace := trace s @ [ToDevice name (r \<noteq> None)]\<rparr>
      in case r of None \<Rightarrow> (Raise TorchError, s') | Some m' \<Rightarrow> (Return m', s'))"

text \<open>
  The \<^verbatim>\<open>try\<close> block of \<^verbatim>\<open>_load_model\<close>. Its \<^verbatim>\<open>except\<close> clause logs and raises the same
  exception again, so every exception leaves the block as it is.
\<close>

definition load_try :: "env \<Rightarrow> settings \<Rightarrow> string \<Rightarrow> manager \<Rightarrow> handle result \<times> manager" where
  "load_try e cfg model_name s =
     (case (if model_name = ''ANI1ccx'' then torchani_call e ''ANI1ccx'' s
            else if model_name = ''ANI2x'' then torchani_call e ''ANI2x'' s
            else if model_name = ''ANI1x'' then torchani_call e ''ANI1x'' s
            else (Raise (ValueError (''Unknown model: '' @ model_name)), s)) of
        (Raise x, s1) \<Rightarrow> (Raise x, s1)
      | (Return m, s1) \<Rightarrow>
          (case to_device_call e model_name m s1 of
             (Raise x, s2) \<Rightarrow> (Raise x, s2)
           | (Return model, s2) \<Rightarrow>
               let s3 = s2\<lparr>models_in_memory := AList.update model_name model (models_in_memory s2)\<rparr>;
                   (t, s4) = now e s3;
                   s5 = s4\<lparr>model_last_used := AList.update model_name t (model_last_used s4)\<rparr>;
                   (t', s6) = now e s5
               in case get_gpu_memory_usage e s6 of
                    (Raise x, s7) \<Rightarrow> (Raise x, s7)
                  | (Return usage, s7) \<Rightarrow>
                      let md = \<lparr> loaded_at = t', device_name = device s7, memory_usage = usage \<rparr>
                      in case redis_call e
                                (RedisSetex (metadata_key model_name) (redis_model_ttl cfg) md) s7 of
                           (Raise x, s8) \<Rightarrow> (Raise x, s8)
                         | (Return _, s8) \<Rightarrow> (Return model, s8)))"

text \<open>\<^verbatim>\<open>_load_model\<close>: the two eviction loops, then the \<^verbatim>\<open>try\<close> block.\<close>

definition load_model ::
  "env \<Rightarrow> settings \<Rightarrow> string \<Rightarrow> manager \<Rightarrow> (handle result \<times> manager) option" where
  "load_model e cfg model_name s =
     (case pressure_loop e cfg s of
        None \<Rightarrow> None
      | Some (Raise x, s1) \<Rightarrow> Some (Raise x, s1)
      | Some (Return _, s1) \<Rightarrow>
          (case capacity_loop e cfg s1 of
             None \<Rightarrow> None
           | Some (Raise x, s2) \<Rightarrow> Some (Raise x, s2)
           | Some (Return _, s2) \<Rightarrow> Some (load_try e cfg model_name s2)))"

text \<open>
  \<^verbatim>\<open>get_model\<close>. \<^verbatim>\<open>if metadata:\<close> is Python truthiness: neither \<^verbatim>\<open>None\<close> nor the empty
  string; both branches load.
\<close>

definition get_model ::
  "env \<Rightarrow> settings \<Rightarrow> string \<Rightarrow> manager \<Rightarrow> (handle result \<times> manager) option" where
  "get_model e cfg model_name s =
     (if model_name \<in> keys (models_in_memory s) then
        let (t, s1) = now e s;
            s2 = s1\<lparr>model_last_used := AList.update model_name t (model_last_used s1)\<rparr>
        in case redis_call e (RedisExpire (metadata_key model_name) (redis_model_ttl cfg)) s2 of
             (Raise x, s3) \<Rightarrow> Some (Raise x, s3)
           | (Return _, s3) \<Rightarrow>
               (case map_of (models_in_memory s3) model_name of
                  None \<Rightarrow> Some (Raise (KeyError model_name), s3)
                | Some model \<Rightarrow> Some (Return model, s3))
      else
        case redis_call e (RedisGet (metadata_key model_name)) s of
          (Raise x, s1) \<Rightarrow> Some (Raise x, s1)
        | (Return md, s1) \<Rightarrow>
            if md \<noteq> None \<and> md \<noteq> Some [] then load_model e cfg model_name s1
            else load_model e cfg model_name s1)"

text \<open>
  \<^verbatim>\<open>initialize\<close>: create the Redis client (taken to succeed: \<^verbatim>\<open>from_url\<close> opens no
  connection), then preload the configured models; an exception of \<^verbatim>\<open>get_model\<close> is
  logged and the loop goes on.
\<close>

fun preload :: "env \<Rightarrow> settings \<Rightarrow> string list \<Rightarrow> manager \<Rightarrow> manager option" where
  "preload e cfg [] s = Some s"
| "preload e cfg (model_name # rest) s =
     (case get_model e cfg model_name s of
        None \<Rightarrow> None
      | Some (_, s') \<Rightarrow> preload e cfg rest s')"

definition initialize :: "env \<Rightarrow> settings \<Rightarrow> manager \<Rightarrow> manager option" where
  "initialize e cfg s = preload e cfg (model_preload cfg) (s\<lparr>redis_client := True\<rparr>)"

text \<open>
  The \<^verbatim>\<open>finally\<close> block of \<^verbatim>\<open>get_model_context\<close>: the release of a model after use.
\<close>

definition release :: "env \<Rightarrow> string \<Rightarrow> manager \<Rightarrow> manager" where
  "release e model_name s =
     (if model_name \<in> keys (models_in_memory s) then
        let (t, s1) = now e s
        in s1\<lparr>model_last_used := AList.update model_name t (model_last_used s1)\<rparr>
      else s)"

text \<open>
  \<^verbatim>\<open>get_model_context\<close>: \<^verbatim>\<open>get_model\<close>, then the body of the \<^verbatim>\<open>async with\<close> statement
  (code of the caller that uses the model and returns or raises), then the release. When
  \<^verbatim>\<open>get_model\<close> raises, neither the body nor the \<^verbatim>\<open>finally\<close> block runs.
\<close>

definition get_model_context ::
  "env \<Rightarrow> settings \<Rightarrow> string \<Rightarrow> (handle \<Rightarrow> 'a result) \<Rightarrow> manager \<Rightarrow> ('a result \<times> manager) option" where
  "get_model_context e cfg model_name body s =
     (case get_model e cfg model_name s of
        None \<Rightarrow> None
      | Some (Raise x, s1) \<Rightarrow> Some (Raise x, s1)
      | Some (Return model, s1) \<Rightarrow> Some (body model, release e model_name s1))"

text \<open>\<^verbatim>\<open>close\<close>: close the Redis client when there is one, then unload every model.\<close>

fun unload_all :: "env \<Rightarrow> string list \<Rightarrow> manager \<Rightarrow> unit result \<times> manager" where
  "unload_all e [] s = (Return (), s)"
| "unload_all e (model_name # rest) s =
     (case unload_model e model_name s of
        (Raise x, s1) \<Rightarrow> (Raise x, s1)
      | (Return _, s1) \<Rightarrow> unload_all e rest s1)"

definition close :: "env \<Rightarrow> manager \<Rightarrow> unit result \<times> manager" where
  "close e s =
     (case (if redis_client s then redis_call e RedisClose s else (Return None, s)) of
        (Raise x, s1) \<Rightarrow> (Raise x, s1)
      | (Return _, s1) \<Rightarrow> unload_all e (map fst (models_in_memory s1)) s1)"

subsection \<open>Model selection\<close>

text \<open>\<^verbatim>\<open>get_supported_elements\<close>: \<^verbatim>\<open>element_sets.get(model_name, set())\<close>.\<close>

definition element_sets :: "(string \<times> int set) list" where
  "element_sets =
     [(''ANI1ccx'', {1, 6, 7, 8}),
      (''ANI1x'', {1, 6, 7, 8}),
      (''ANI2x'', {1, 6, 7, 8, 9, 16, 17})]"

definition get_supported_elements :: "string \<Rightarrow> int set" where
  "get_supported_elements model_name =
     (case map_of element_sets model_name of None \<Rightarrow> {} | Some els \<Rightarrow> els)"

text \<open>\<^verbatim>\<open>select_best_model\<close>: the \<^verbatim>\<open>for\<close> loop over \<^verbatim>\<open>model_preference\<close>.\<close>

definition model_preference :: "string list" where
  "model_preference = [''ANI2x'', ''ANI1ccx'', ''ANI1x'']"

fun select_loop :: "string list \<Rightarrow> int set \<Rightarrow> string option" where
  "select_loop [] elements = None"
| "select_loop (model_name # rest) elements =
     (if elements \<subseteq> get_supported_elements model_name then Some model_name
      else select_loop rest elements)"

definition select_best_model :: "int set \<Rightarrow> string option" where
  "select_best_model elements = select_loop model_preference elements"

section \<open>Calls, the bookkeeping invariant and traces\<close>

text \<open>
  The three calls of the cache interface: acquire is \<open>get_model\<close>, release is the
  \<^verbatim>\<open>finally\<close> block of \<^verbatim>\<open>get_model_context\<close>, evict is \<^verbatim>\<open>_unload_model\<close>. A call that
  raises hands the exception to its caller and leaves the manager in the state it reached;
  the next call starts from there. A call that never returns (\<open>None\<close>) ends the run.
\<close>

datatype call = Acquire string | Release string | Evict string

definition perform :: "env \<Rightarrow> settings \<Rightarrow> call \<Rightarrow> manager \<Rightarrow> manager option" where
  "perform e cfg c s =
     (case c of
        Acquire n \<Rightarrow> map_option snd (get_model e cfg n s)
      | Release n \<Rightarrow> Some (release e n s)
      | Evict n \<Rightarrow> Some (snd (unload_model e n s)))"

fun run :: "env \<Rightarrow> settings \<Rightarrow> call list \<Rightarrow> manager \<Rightarrow> manager option" where
  "run e cfg [] s = Some s"
| "run e cfg (c # cs) s =
     (case perform e cfg c s of None \<Rightarrow> None | Some s' \<Rightarrow> run e cfg cs s')"

text \<open>The two dictionaries have the same keys.\<close>

definition consistent :: "manager \<Rightarrow> bool" where
  "consistent s \<longleftrightarrow> keys (models_in_memory s) = keys (model_last_used s)"

text \<open>The names for which \<^verbatim>\<open>_load_model\<close> has a constructor.\<close>

definition known_model :: "string \<Rightarrow> bool" where
  "known_model n \<longleftrightarrow> n = ''ANI1ccx'' \<or> n = ''ANI2x'' \<or> n = ''ANI1x''"

text \<open>The events a call added to the trace, and whether a loader call of it raised.\<close>

definition new_events :: "manager \<Rightarrow> manager \<Rightarrow> event list" where
  "new_events s s' = drop (length (trace s)) (trace s')"


definition is_eviction_event :: "event \<Rightarrow> bool" where
  "is_eviction_event ev = (case ev of Unloaded _ \<Rightarrow> True | RedisDelete _ _ \<Rightarrow> True | _ \<Rightarrow> False)"

definition is_setex_event :: "event \<Rightarrow> bool" where
  "is_setex_event ev = (case ev of RedisSetex _ _ _ _ \<Rightarrow> True | _ \<Rightarrow> False)"

text \<open>
  What a state \<open>s'\<close> reached from \<open>s\<close> by evictions alone looks like: no new key, no more
  entries, the bookkeeping still consistent, only eviction events added.
\<close>

definition only_evicts :: "manager \<Rightarrow> manager \<Rightarrow> bool" where
  "only_evicts s s' \<longleftrightarrow>
     keys (models_in_memory s') \<subseteq> keys (models_in_memory s) \<and>
     length (models_in_memory s') \<le> length (models_in_memory s) \<and>
     (consistent s \<longrightarrow> consistent s') \<and>
     (\<exists>evs. trace s' = trace s @ evs \<and> list_all is_eviction_event evs) \<and>
     redis_client s' = redis_client s \<and> device s' = device s"

text \<open>
  Store calls that raised, as the trace records them: any of them, the delete of the
  metadata of a model \<open>v\<close>, and a \<^verbatim>\<open>setex\<close>.
\<close>

definition is_store_failure :: "event \<Rightarrow> bool" where
  "is_store_failure ev =
     (case ev of
        RedisSetex _ _ _ ok \<Rightarrow> \<not> ok
      | RedisExpire _ _ ok \<Rightarrow> \<not> ok
      | RedisGet _ ok \<Rightarrow> \<not> ok
      | RedisDelete _ ok \<Rightarrow> \<not> ok
      | RedisClose ok \<Rightarrow> \<not> ok
      | _ \<Rightarrow> False)"

definition store_failed :: "event list \<Rightarrow> bool" where
  "store_failed evs = list_ex is_store_failure evs"

definition delete_failed :: "string \<Rightarrow> event list \<Rightarrow> bool" where
  "delete_failed v evs \<longleftrightarrow> RedisDelete (metadata_key v) False \<in> set evs"

definition setex_failed :: "event list \<Rightarrow> bool" where
  "setex_failed evs = list_ex (\<lambda>ev. is_setex_event ev \<and> is_store_failure ev) evs"

text \<open>
  What the trace of an eviction step or loop looks like: no \<^verbatim>\<open>setex\<close>, and a store
  failure only as the last event, the delete for a model that was resident and no longer
  is, with the store's exception as the result.
\<close>

definition evicts_cleanly :: "manager \<Rightarrow> unit result \<Rightarrow> manager \<Rightarrow> bool" where
  "evicts_cleanly s r s' \<longleftrightarrow>
     (\<exists>evs. trace s' = trace s @ evs \<and> \<not> setex_failed evs \<and>
        (store_failed evs \<longrightarrow>
           r = Raise RedisError \<and>
           (\<exists>v pre. evs = pre @ [RedisDelete (metadata_key v) False] \<and> \<not> store_failed pre \<and>
              v \<in> keys (models_in_memory s) \<and> v \<notin> keys (models_in_memory s'))))"

section \<open>Example worlds and states\<close>

text \<open>
  A machine without CUDA whose store and loaders work; the clock reads \<open>0, 1, 2, \<dots>\<close> and
  the \<open>i\<close>-th torch call returns the handle \<open>i\<close>.
\<close>

definition cpu_env :: env where
  "cpu_env =
     \<lparr> cuda_is_available = False, memory_allocated = (\<lambda>_. 0), total_memory = 0,
       time_time = (\<lambda>i. real i), redis_raises = (\<lambda>_. False), redis_value = (\<lambda>_. None),
       torchani_models = (\<lambda>n i. Some i), to_device = (\<lambda>m i. Some m) \<rparr>"

text \<open>A GPU of 10 units whose third reading is 8 units allocated, the others 1.\<close>

definition busy_gpu_env :: env where
  "busy_gpu_env =
     cpu_env\<lparr> cuda_is_available := True, memory_allocated := (\<lambda>i. if i = 2 then 8 else 1),
              total_memory := 10 \<rparr>"

text \<open>The same world with the store unreachable, with the store failing from its third
  call on, and with the torchani constructors raising.\<close>

definition store_down :: "env \<Rightarrow> env" where
  "store_down e = e\<lparr> redis_raises := (\<lambda>_. True) \<rparr>"

definition flaky_store_env :: env where
  "flaky_store_env = cpu_env\<lparr> redis_raises := (\<lambda>i. 2 \<le> i) \<rparr>"


text \<open>The manager after \<^verbatim>\<open>initialize\<close>, on the CPU machine and on the GPU machine.\<close>

definition connected :: manager where
  "connected =
     \<lparr> redis_client = True, models_in_memory = [], model_last_used = [], device = ''cpu'',
       n_gauge = 0, n_time = 0, n_redis = 0, n_torch = 0, trace = [] \<rparr>"

definition connected_gpu :: manager where
  "connected_gpu = connected\<lparr> device := ''cuda:0'' \<rparr>"

text \<open>The CPU manager after acquiring ANI1x and then ANI2x.\<close>

definition two_loaded :: manager where
  "two_loaded =
     \<lparr> redis_client = True,
       models_in_memory = [(''ANI1x'', 0), (''ANI2x'', 2)],
       model_last_used = [(''ANI1x'', 0), (''ANI2x'', 2)],
       device = ''cpu'', n_gauge = 0, n_time = 4, n_redis = 4, n_torch = 4,
       trace =
         [RedisGet ''model:ANI1x:metadata'' True,
          TorchaniModels ''ANI1x'' True, ToDevice ''ANI1x'' True,
          RedisSetex ''model:ANI1x:metadata'' 300
            \<lparr>loaded_at = 1, device_name = ''cpu'', memory_usage = 0\<rparr> True,
          RedisGet ''model:ANI2x:metadata'' True,
          TorchaniModels ''ANI2x'' True, ToDevice ''ANI2x'' True,
          RedisSetex ''model:ANI2x:metadata'' 300
            \<lparr>loaded_at = 3, device_name = ''cpu'', memory_usage = 0\<rparr> True] \<rparr>"

text \<open>The GPU manager after acquiring ANI1x.\<close>

definition one_loaded :: manager where
  "one_loaded =
     \<lparr> redis_client = True,
       models_in_memory = [(''ANI1x'', 0)],
       model_last_used = [(''ANI1x'', 0)],
       device = ''cuda:0'', n_gauge = 2, n_time = 2, n_redis = 2, n_torch = 2,
       trace =
         [RedisGet ''model:ANI1x:metadata'' True,
          TorchaniModels ''ANI1x'' True, ToDevice ''ANI1x'' True,
          RedisSetex ''model:ANI1x:metadata'' 300
            \<lparr>loaded_at = 1, device_name = ''cuda:0'', memory_usage = 1 / 10\<rparr> True] \<rparr>"

text \<open>Three resident models last used at 10, 5 and 20.\<close>

definition three_loaded :: manager where
  "three_loaded =
     \<lparr> redis_client = True,
       models_in_memory = [(''ANI1x'', 0), (''ANI2x'', 2), (''ANI1ccx'', 4)],
       model_last_used = [(''ANI1x'', 10), (''ANI2x'', 5), (''ANI1ccx'', 20)],
       device = ''cpu'', n_gauge = 0, n_time = 9, n_redis = 6, n_torch = 6, trace = [] \<rparr>"

text \<open>The states that the calls of the examples below leave behind.\<close>

definition one_loaded_after_acquire :: manager where
  "one_loaded_after_acquire =
     one_loaded
       \<lparr> models_in_memory := [(''ANI2x'', 2)], model_last_used := [(''ANI2x'', 2)],
         n_gauge := 5, n_time := 4, n_redis := 5, n_torch := 4,
         trace := trace one_loaded @
           [RedisGet ''model:ANI2x:metadata'' True, Unloaded ''ANI1x'',
            RedisDelete ''model:ANI1x:metadata'' True,
            TorchaniModels ''ANI2x'' True, ToDevice ''ANI2x'' True,
            RedisSetex ''model:ANI2x:metadata'' 300
              \<lparr>loaded_at = 3, device_name = ''cuda:0'', memory_usage = 1 / 10\<rparr> True] \<rparr>"

definition one_loaded_store_down :: manager where
  "one_loaded_store_down =
     one_loaded
       \<lparr> n_redis := 3,
         trace := trace one_loaded @ [RedisGet ''model:ANI2x:metadata'' False] \<rparr>"

definition after_first_acquire :: manager where
  "after_first_acquire =
     connected
       \<lparr> models_in_memory := [(''ANI2x'', 0)], model_last_used := [(''ANI2x'', 0)],
         n_time := 2, n_redis := 2, n_torch := 2,
         trace :=
           [RedisGet ''model:ANI2x:metadata'' True,
            TorchaniModels ''ANI2x'' True, ToDevice ''ANI2x'' True,
            RedisSetex ''model:ANI2x:metadata'' 300
              \<lparr>loaded_at = 1, device_name = ''cpu'', memory_usage = 0\<rparr> True] \<rparr>"

definition after_second_acquire :: manager where
  "after_second_acquire =
     after_first_acquire
       \<lparr> model_last_used := [(''ANI2x'', 2)], n_time := 3, n_redis := 3,
         trace := trace after_first_acquire @ [RedisExpire ''model:ANI2x:metadata'' 300 False] \<rparr>"


definition two_loaded_after_unknown :: manager where
  "two_loaded_after_unknown =
     two_loaded
       \<lparr> models_in_memory := [(''ANI2x'', 2)], model_last_used := [(''ANI2x'', 2)],
         n_redis := 6,
         trace := trace two_loaded @
           [RedisGet ''model:unregistered:metadata'' True, Unloaded ''ANI1x'',
            RedisDelete ''model:ANI1x:metadata'' True] \<rparr>"

definition two_loaded_evict_store_up :: manager where
  "two_loaded_evict_store_up =
     two_loaded
       \<lparr> models_in_memory := [(''ANI1x'', 0)], model_last_used := [(''ANI1x'', 0)],
         n_redis := 5,
         trace := trace two_loaded @
           [Unloaded ''ANI2x'', RedisDelete ''model:ANI2x:metadata'' True] \<rparr>"

definition two_loaded_evict_store_down :: manager where
  "two_loaded_evict_store_down =
     two_loaded
       \<lparr> models_in_memory := [(''ANI1x'', 0)], model_last_used := [(''ANI1x'', 0)],
         n_redis := 5,
         trace := trace two_loaded @
           [Unloaded ''ANI2x'', RedisDelete ''model:ANI2x:metadata'' False] \<rparr>"

text \<open>The CPU world whose store raises at its \<open>k\<close>-th call only, and what is left when the
  \<^verbatim>\<open>setex\<close> of a load, or the delete of an eviction, is that call.\<close>

definition store_fails_at :: "nat \<Rightarrow> env \<Rightarrow> env" where
  "store_fails_at k e = e\<lparr> redis_raises := (\<lambda>i. i = k) \<rparr>"

definition after_failed_setex :: manager where
  "after_failed_setex =
     connected
       \<lparr> models_in_memory := [(''ANI2x'', 0)], model_last_used := [(''ANI2x'', 0)],
         n_time := 2, n_redis := 2, n_torch := 2,
         trace :=
           [RedisGet ''model:ANI2x:metadata'' True,
            TorchaniModels ''ANI2x'' True, ToDevice ''ANI2x'' True,
            RedisSetex ''model:ANI2x:metadata'' 300
              \<lparr>loaded_at = 1, device_name = ''cpu'', memory_usage = 0\<rparr> False] \<rparr>"

definition two_loaded_after_failed_delete :: manager where
  "two_loaded_after_failed_delete =
     two_loaded
       \<lparr> models_in_memory := [(''ANI2x'', 2)], model_last_used := [(''ANI2x'', 2)],
         n_redis := 6,
         trace := trace two_loaded @
           [RedisGet ''model:ANI1ccx:metadata'' True, Unloaded ''ANI1x'',
            RedisDelete ''model:ANI1x:metadata'' False] \<rparr>"

section \<open>Properties of the model selection\<close>


lemma get_supported_elements_ANI2x: "get_supported_elements ''ANI2x'' = {1, 6, 7, 8, 9, 16, 17}"
  by (simp add: get_supported_elements_def element_sets_def)
lemma get_supported_elements_ANI1ccx: "get_supported_elements ''ANI1ccx'' = {1, 6, 7, 8}"
  by (simp add: get_supported_elements_def element_sets_def)
lemma get_supported_elements_ANI1x: "get_supported_elements ''ANI1x'' = {1, 6, 7, 8}"
  by (simp add: get_supported_elements_def element_sets_def)

lemma select_loop_find:
  "select_loop ms els = List.find (\<lambda>m. els \<subseteq> get_supported_elements m) ms"
  by (induction ms) simp_all

lemma select_loop_Some_iff:
  "select_loop ms els = Some m \<longleftrightarrow>
     (\<exists>i < length ms. ms ! i = m \<and> els \<subseteq> get_supported_elements m \<and>
        (\<forall>j < i. \<not> els \<subseteq> get_supported_elements (ms ! j)))"
  by (auto simp add: select_loop_find find_Some_iff) 

lemma select_loop_None_iff:
  "select_loop ms els = None \<longleftrightarrow> (\<forall>m \<in> set ms. \<not> els \<subseteq> get_supported_elements m)"
  by (auto simp add: select_loop_find find_None_iff)

text \<open>
  Claim C7. For every set of required atomic numbers, \<open>select_best_model\<close> walks the fixed
  preference order and returns the first model name whose supported element set is a
  superset of the required set; it returns \<open>None\<close>, and raises nothing, when no model
  qualifies. The loop of the source equals the first match of the library (\<open>List.find\<close>);
  the result is \<open>Some m\<close> exactly when \<open>m\<close> stands at a position of the preference order
  where it qualifies and nothing before it does, and \<open>None\<close> exactly when nothing qualifies.
\<close>

theorem select_best_model_first_qualifying:
  "select_best_model elements =
     List.find (\<lambda>m. elements \<subseteq> get_supported_elements m) model_preference
   \<and> (select_best_model elements = Some m \<longleftrightarrow>
        (\<exists>i < length model_preference.
            model_preference ! i = m \<and> elements \<subseteq> get_supported_elements m \<and>
            (\<forall>j < i. \<not> elements \<subseteq> get_supported_elements (model_preference ! j))))
   \<and> (select_best_model elements = None \<longleftrightarrow>
        (\<forall>m \<in> set model_preference. \<not> elements \<subseteq> get_supported_elements m))"
  unfolding select_best_model_def
  using select_loop_find select_loop_Some_iff select_loop_None_iff by blast

text \<open>
  The theorem at \<open>{1, 6, 35}\<close> (bromine is supported by no model) and at
  \<open>{1, 6, 9, 17}\<close>.
\<close>

theorem select_best_model_first_qualifying_witness:
  "select_best_model {1, 6, 35} = None \<and> select_best_model {1, 6, 9, 17} = Some ''ANI2x''
   \<and> \<not> {1, 6, 35} \<subseteq> get_supported_elements ''ANI1x''"
proof -
  have a: "select_best_model {1, 6, 35} = None"
    by (simp add: select_best_model_def model_preference_def get_supported_elements_ANI2x
        get_supported_elements_ANI1ccx get_supported_elements_ANI1x)
  have b: "select_best_model {1, 6, 9, 17} = Some ''ANI2x''"
    by (simp add: select_best_model_def model_preference_def get_supported_elements_ANI2x)
  from a select_best_model_first_qualifying [of "{1, 6, 35}" "''ANI2x''"]
  have "\<forall>m \<in> set model_preference. \<not> {1, 6, 35} \<subseteq> get_supported_elements m"
    by blast
  then have "\<not> {1, 6, 35} \<subseteq> get_supported_elements ''ANI1x''"
    by (simp add: model_preference_def)
  with a b show ?thesis by blast
qed

text \<open>
  Claim C9. The supported set of ANI2x contains those of ANI1ccx and ANI1x, and ANI2x is
  first in the preference order, so \<open>select_best_model\<close> never returns \<open>''ANI1ccx''\<close> or
  \<open>''ANI1x''\<close>: for every element set the result is \<open>''ANI2x''\<close> or \<open>None\<close>.
\<close>

theorem select_best_model_ANI2x_or_None:
  "select_best_model elements = Some ''ANI2x'' \<or> select_best_model elements = None"
  by (auto simp add: select_best_model_def model_preference_def get_supported_elements_ANI2x
     get_supported_elements_ANI1ccx get_supported_elements_ANI1x)

text \<open>The theorem at \<open>{1, 6, 7, 8}\<close> and at \<open>{1, 92}\<close>.\<close>

theorem select_best_model_ANI2x_or_None_witness:
  "select_best_model {1, 6, 7, 8} = Some ''ANI2x'' \<and> select_best_model {1, 92} = None"
proof -
  have "select_best_model {1, 6, 7, 8} \<noteq> None"
    by (simp add: select_best_model_def model_preference_def get_supported_elements_ANI2x)
  moreover have "select_best_model {1, 92} \<noteq> Some ''ANI2x''"
    by (simp add: select_best_model_def model_preference_def get_supported_elements_ANI2x
        get_supported_elements_ANI1ccx get_supported_elements_ANI1x)
  ultimately show ?thesis
    using select_best_model_ANI2x_or_None [of "{1, 6, 7, 8}"]
      select_best_model_ANI2x_or_None [of "{1, 92}"] by auto
qed

section \<open>Lemmas about the manager\<close>

subsection \<open>Dictionaries\<close>

lemma keys_Nil [simp]: "keys [] = {}"
  by (simp add: keys_def)

lemma keys_empty_iff [simp]: "keys d = {} \<longleftrightarrow> d = []"
  by (simp add: keys_def)

lemma keys_delete [simp]: "keys (AList.delete k d) = keys d - {k}"
  by (induction d) (auto simp: keys_def)

lemma keys_update [simp]: "keys (AList.update k v d) = insert k (keys d)"
  by (simp add: keys_def dom_update)

lemma delete_absent: "k \<notin> keys d \<Longrightarrow> AList.delete k d = d"
  by (simp add: keys_def)

lemma length_delete_less: "k \<in> keys d \<Longrightarrow> length (AList.delete k d) < length d"
proof (induction d)
  case Nil
  then show ?case by simp
next
  case (Cons p d)
  show ?case
  proof (cases "fst p = k")
    case True
    then show ?thesis
      using length_delete_le [of k d] by (cases p) (simp add: less_Suc_eq_le)
  next
    case False
    with Cons.prems have "k \<in> keys d" by (auto simp: keys_def)
    from Cons.IH [OF this] False show ?thesis by (cases p) simp
  qed
qed

lemma length_update_le: "length (AList.update k v d) \<le> Suc (length d)"
  by (induction d) auto

lemma length_update_absent: "k \<notin> keys d \<Longrightarrow> length (AList.update k v d) = Suc (length d)"
  by (induction d) (auto simp: keys_def)

lemma length_update_present: "k \<in> keys d \<Longrightarrow> length (AList.update k v d) = length d"
  by (induction d) (auto simp: keys_def)

lemma map_of_keys: "map_of d k \<noteq> None \<longleftrightarrow> k \<in> keys d"
  by (simp add: keys_def map_of_eq_None_iff)

subsection \<open>The least recently used key\<close>

lemma min_entry_mem: "min_entry b xs \<in> set (b # xs)"
  by (induction xs arbitrary: b) auto

lemma min_entry_le_best: "snd (min_entry b xs) \<le> snd b"
proof (induction xs arbitrary: b)
  case Nil
  then show ?case by simp
next
  case (Cons x xs)
  have "snd (min_entry (if snd x < snd b then x else b) xs)
          \<le> snd (if snd x < snd b then x else b)"
    by (rule Cons.IH)
  then show ?case by (auto split: if_splits)
qed

lemma min_entry_le: "y \<in> set (b # xs) \<Longrightarrow> snd (min_entry b xs) \<le> snd y"
proof (induction xs arbitrary: b)
  case Nil
  then show ?case by simp
next
  case (Cons x xs)
  let ?b' = "if snd x < snd b then x else b"
  have le: "snd (min_entry ?b' xs) \<le> snd ?b'"
    by (rule min_entry_le_best)
  from Cons.prems consider "y = b" | "y = x" | "y \<in> set xs" by auto
  then show ?case
  proof cases
    case 1
    with le show ?thesis by (auto split: if_splits)
  next
    case 2
    with le show ?thesis by (auto split: if_splits)
  next
    case 3
    then have "y \<in> set (?b' # xs)" by simp
    from Cons.IH [OF this] show ?thesis by simp
  qed
qed

lemma min_key_None [simp]: "min_key d = None \<longleftrightarrow> d = []"
  by (simp add: min_key_def split: list.splits)

lemma min_key_Some:
  assumes "min_key d = Some k"
  shows "\<exists>t. (k, t) \<in> set d \<and> (\<forall>(k', t') \<in> set d. t \<le> t')"
proof -
  from assms obtain x xs where d: "d = x # xs" and k: "k = fst (min_entry x xs)"
    by (auto simp: min_key_def split: list.splits)
  have "(k, snd (min_entry x xs)) \<in> set d"
    using min_entry_mem [of x xs] by (simp add: d k)
  moreover have "\<forall>(k', t') \<in> set d. snd (min_entry x xs) \<le> t'"
    using min_entry_le [of _ x xs] unfolding d by fastforce
  ultimately show ?thesis by blast
qed

lemma min_key_in_keys: "min_key d = Some k \<Longrightarrow> k \<in> keys d"
  by (drule min_key_Some) (force simp: keys_def)


subsection \<open>Evictions\<close>

lemma only_evicts_refl: "only_evicts s s"
  by (simp add: only_evicts_def)

lemma only_evicts_trans: "only_evicts s s1 \<Longrightarrow> only_evicts s1 s2 \<Longrightarrow> only_evicts s s2"
  unfolding only_evicts_def by (elim conjE exE) (auto simp: list_all_append)

lemma get_gpu_memory_usage_state:
  "get_gpu_memory_usage e s = (r, s') \<Longrightarrow> \<exists>n. s' = s\<lparr>n_gauge := n\<rparr>"
  by (auto simp: get_gpu_memory_usage_def Let_def split: if_splits intro: exI [of _ "n_gauge s"])

lemma check_memory_pressure_state:
  "check_memory_pressure e cfg s = (r, s') \<Longrightarrow> \<exists>n. s' = s\<lparr>n_gauge := n\<rparr>"
  by (auto simp: check_memory_pressure_def split: prod.splits result.splits
      dest: get_gpu_memory_usage_state)

lemma only_evicts_n_gauge: "only_evicts s (s\<lparr>n_gauge := n\<rparr>)"
  by (simp add: only_evicts_def consistent_def)

lemma check_memory_pressure_only_evicts:
  "check_memory_pressure e cfg s = (r, s') \<Longrightarrow> only_evicts s s'"
  by (auto dest!: check_memory_pressure_state simp: only_evicts_n_gauge)

lemma redis_call_fields:
  "redis_call e ev s = (r, s') \<Longrightarrow>
     models_in_memory s' = models_in_memory s \<and> model_last_used s' = model_last_used s \<and>
     redis_client s' = redis_client s \<and> device s' = device s \<and>
     n_time s' = n_time s \<and> n_gauge s' = n_gauge s \<and> n_torch s' = n_torch s"
  by (auto simp: redis_call_def Let_def split: if_splits)

lemma redis_call_trace:
  "redis_call e ev s = (r, s') \<Longrightarrow>
     trace s' = trace s \<or> (\<exists>ok. trace s' = trace s @ [ev ok])"
  by (auto simp: redis_call_def Let_def split: if_splits)

lemma unload_model_models:
  "unload_model e n s = (r, s') \<Longrightarrow>
     models_in_memory s' = AList.delete n (models_in_memory s)"
  by (auto simp: unload_model_def Let_def delete_absent redis_call_def
      split: if_splits prod.splits result.splits)

lemma unload_model_last_used:
  "unload_model e n s = (r, s') \<Longrightarrow> consistent s \<Longrightarrow>
     model_last_used s' = AList.delete n (model_last_used s)"
  by (auto simp: unload_model_def Let_def delete_absent redis_call_def consistent_def
      split: if_splits prod.splits result.splits)

lemma unload_model_consistent:
  "unload_model e n s = (r, s') \<Longrightarrow> consistent s \<Longrightarrow> consistent s'"
  using unload_model_models [of e n s r s'] unload_model_last_used [of e n s r s']
  by (simp add: consistent_def)

lemma unload_model_trace:
  "unload_model e n s = (r, s') \<Longrightarrow>
     (n \<notin> keys (models_in_memory s) \<and> s' = s \<and> r = Return ()) \<or>
     (n \<in> keys (models_in_memory s) \<and>
      (\<exists>evs. trace s' = trace s @ Unloaded n # evs \<and> list_all is_eviction_event evs))"
  by (auto simp: unload_model_def Let_def redis_call_def is_eviction_event_def
      split: if_splits prod.splits result.splits)

lemma unload_model_misc:
  "unload_model e n s = (r, s') \<Longrightarrow> redis_client s' = redis_client s \<and> device s' = device s"
  by (auto simp: unload_model_def Let_def redis_call_def
      split: if_splits prod.splits result.splits)

lemma unload_model_only_evicts:
  assumes "unload_model e n s = (r, s')"
  shows "only_evicts s s'"
proof -
  have m: "models_in_memory s' = AList.delete n (models_in_memory s)"
    using assms by (rule unload_model_models)
  have "\<exists>evs. trace s' = trace s @ evs \<and> list_all is_eviction_event evs"
    using unload_model_trace [OF assms] by (auto simp: is_eviction_event_def)
  then show ?thesis
    using unload_model_consistent [OF assms] unload_model_misc [OF assms]
    by (auto simp: only_evicts_def m length_delete_le)
qed

lemma evict_oldest_model_only_evicts:
  "evict_oldest_model e s = (r, s') \<Longrightarrow> only_evicts s s'"
  by (auto simp: evict_oldest_model_def only_evicts_refl
      split: if_splits option.splits dest: unload_model_only_evicts)

text \<open>What one eviction does in a consistent manager that holds a model.\<close>

lemma evict_oldest_model_removes:
  assumes "evict_oldest_model e s = (r, s')" "consistent s" "models_in_memory s \<noteq> []"
  shows "\<exists>n evs. min_key (model_last_used s) = Some n \<and> n \<in> keys (models_in_memory s) \<and>
           models_in_memory s' = AList.delete n (models_in_memory s) \<and>
           model_last_used s' = AList.delete n (model_last_used s) \<and>
           trace s' = trace s @ Unloaded n # evs \<and> list_all is_eviction_event evs"
proof -
  from assms(2,3) have "model_last_used s \<noteq> []"
    by (metis consistent_def keys_empty_iff)
  then obtain n where n: "min_key (model_last_used s) = Some n"
    by (cases "min_key (model_last_used s)") auto
  then have mem: "n \<in> keys (models_in_memory s)"
    using min_key_in_keys assms(2) by (simp add: consistent_def)
  from assms(1,3) n have u: "unload_model e n s = (r, s')"
    by (simp add: evict_oldest_model_def)
  from unload_model_trace [OF u] mem
  obtain evs where "trace s' = trace s @ Unloaded n # evs" "list_all is_eviction_event evs"
    by auto
  with n mem unload_model_models [OF u] unload_model_last_used [OF u assms(2)]
  show ?thesis by blast
qed

lemma evict_oldest_model_shrinks:
  assumes "evict_oldest_model e s = (r, s')" "consistent s" "models_in_memory s \<noteq> []"
  shows "length (models_in_memory s') < length (models_in_memory s)"
  using evict_oldest_model_removes [OF assms] by (auto simp: length_delete_less)

subsection \<open>The loops\<close>

lemma pressure_loop_only_evicts_aux:
  "pressure_loop e cfg s = Some y \<Longrightarrow> only_evicts s (snd y)"
proof (induction rule: pressure_loop.raw_induct [rotated 1, consumes 1])
  case (1 loop e cfg s y)
  obtain p s1 where c: "check_memory_pressure e cfg s = (p, s1)"
    by (cases "check_memory_pressure e cfg s")
  have a: "only_evicts s s1" using c by (rule check_memory_pressure_only_evicts)
  show ?case
  proof (cases p)
    case (Raise x)
    with 1(2) c a show ?thesis by auto
  next
    case (Return pressure)
    show ?thesis
    proof (cases "pressure \<and> models_in_memory s1 \<noteq> []")
      case False
      with 1(2) c a Return show ?thesis by auto
    next
      case True
      obtain q s2 where ev: "evict_oldest_model e s1 = (q, s2)"
        by (cases "evict_oldest_model e s1")
      have b: "only_evicts s1 s2" using ev by (rule evict_oldest_model_only_evicts)
      show ?thesis
      proof (cases q)
        case (Raise x)
        with 1(2) c Return True ev have "snd y = s2" by auto
        with a b show ?thesis by (auto intro: only_evicts_trans)
      next
        case Return2: (Return u)
        with 1(2) c Return True ev have "loop e cfg s2 = Some y" by simp
        then have "only_evicts s2 (snd y)" by (rule 1(1))
        with a b show ?thesis by (blast intro: only_evicts_trans)
      qed
    qed
  qed
qed

lemma pressure_loop_only_evicts:
  "pressure_loop e cfg s = Some (r, s') \<Longrightarrow> only_evicts s s'"
  by (drule pressure_loop_only_evicts_aux) simp

lemma capacity_loop_only_evicts_aux:
  "capacity_loop e cfg s = Some y \<Longrightarrow> only_evicts s (snd y)"
proof (induction rule: capacity_loop.raw_induct [rotated 1, consumes 1])
  case (1 loop e cfg s y)
  show ?case
  proof (cases "int (length (models_in_memory s)) \<ge> model_max_loaded cfg")
    case False
    with 1(2) show ?thesis by (auto simp add: only_evicts_refl)
  next
    case True
    obtain q s1 where ev: "evict_oldest_model e s = (q, s1)"
      by (cases "evict_oldest_model e s")
    have b: "only_evicts s s1" using ev by (rule evict_oldest_model_only_evicts)
    show ?thesis
    proof (cases q)
      case (Raise x)
      with 1(2) True ev b show ?thesis by auto
    next
      case (Return u)
      with 1(2) True ev have "loop e cfg s1 = Some y" by simp
      then have "only_evicts s1 (snd y)" by (rule 1(1))
      with b show ?thesis by (blast intro: only_evicts_trans)
    qed
  qed
qed

lemma capacity_loop_only_evicts:
  "capacity_loop e cfg s = Some (r, s') \<Longrightarrow> only_evicts s s'"
  by (drule capacity_loop_only_evicts_aux) simp

lemma capacity_loop_below_limit_aux:
  "capacity_loop e cfg s = Some y \<Longrightarrow>
     (\<forall>u. fst y = Return u \<longrightarrow> int (length (models_in_memory (snd y))) < model_max_loaded cfg)"
proof (induction rule: capacity_loop.raw_induct [rotated 1, consumes 1])
  case (1 loop e cfg s y)
  show ?case
  proof (cases "int (length (models_in_memory s)) \<ge> model_max_loaded cfg")
    case False
    with 1(2) show ?thesis by auto
  next
    case True
    obtain q s1 where ev: "evict_oldest_model e s = (q, s1)"
      by (cases "evict_oldest_model e s")
    show ?thesis
    proof (cases q)
      case (Raise x)
      with 1(2) True ev show ?thesis by auto
    next
      case (Return u)
      with 1(2) True ev have "loop e cfg s1 = Some y" by simp
      then show ?thesis by (rule 1(1))
    qed
  qed
qed

lemma capacity_loop_below_limit:
  "capacity_loop e cfg s = Some (Return u, s') \<Longrightarrow>
     int (length (models_in_memory s')) < model_max_loaded cfg"
  by (drule capacity_loop_below_limit_aux) simp


subsection \<open>Termination of the loops\<close>

lemma check_memory_pressure_keeps:
  "check_memory_pressure e cfg s = (r, s') \<Longrightarrow>
     models_in_memory s' = models_in_memory s \<and> model_last_used s' = model_last_used s \<and>
     trace s' = trace s \<and> consistent s' = consistent s"
  by (auto dest!: check_memory_pressure_state simp: consistent_def)

lemma pressure_loop_terminates:
  "consistent s \<Longrightarrow> \<exists>y. pressure_loop e cfg s = Some y"
proof (induction "length (models_in_memory s)" arbitrary: s rule: less_induct)
  case less
  obtain p s1 where c: "check_memory_pressure e cfg s = (p, s1)"
    by (cases "check_memory_pressure e cfg s")
  note k = check_memory_pressure_keeps [OF c]
  show ?case
  proof (cases p)
    case (Raise x)
    with c show ?thesis by (subst pressure_loop.simps) simp
  next
    case (Return pressure)
    show ?thesis
    proof (cases "pressure \<and> models_in_memory s1 \<noteq> []")
      case False
      with c Return show ?thesis by (subst pressure_loop.simps) auto
    next
      case True
      obtain q s2 where ev: "evict_oldest_model e s1 = (q, s2)"
        by (cases "evict_oldest_model e s1")
      have c1: "consistent s1" using k less.prems by simp
      show ?thesis
      proof (cases q)
        case (Raise x)
        with c Return True ev show ?thesis by (subst pressure_loop.simps) simp
      next
        case Return2: (Return u)
        have "length (models_in_memory s2) < length (models_in_memory s)"
          using evict_oldest_model_shrinks [OF ev c1] True k by simp
        moreover have "consistent s2"
          using evict_oldest_model_only_evicts [OF ev] c1 by (simp add: only_evicts_def)
        ultimately have "\<exists>y. pressure_loop e cfg s2 = Some y" by (rule less.hyps)
        with c Return True ev Return2 show ?thesis by (subst pressure_loop.simps) simp
      qed
    qed
  qed
qed

lemma capacity_loop_terminates:
  "consistent s \<Longrightarrow> 1 \<le> model_max_loaded cfg \<Longrightarrow> \<exists>y. capacity_loop e cfg s = Some y"
proof (induction "length (models_in_memory s)" arbitrary: s rule: less_induct)
  case less
  show ?case
  proof (cases "int (length (models_in_memory s)) \<ge> model_max_loaded cfg")
    case False
    then show ?thesis by (subst capacity_loop.simps) simp
  next
    case True
    with less.prems(2) have ne: "models_in_memory s \<noteq> []" by auto
    obtain q s1 where ev: "evict_oldest_model e s = (q, s1)"
      by (cases "evict_oldest_model e s")
    show ?thesis
    proof (cases q)
      case (Raise x)
      with True ev show ?thesis by (subst capacity_loop.simps) simp
    next
      case (Return u)
      have "length (models_in_memory s1) < length (models_in_memory s)"
        using evict_oldest_model_shrinks [OF ev less.prems(1) ne] .
      moreover have "consistent s1"
        using evict_oldest_model_only_evicts [OF ev] less.prems(1) by (simp add: only_evicts_def)
      ultimately have "\<exists>y. capacity_loop e cfg s1 = Some y"
        using less.prems(2) by (rule less.hyps)
      with True ev Return show ?thesis by (subst capacity_loop.simps) simp
    qed
  qed
qed

subsection \<open>The try block\<close>

lemma load_try_unknown:
  "\<not> known_model n \<Longrightarrow>
     load_try e cfg n s = (Raise (ValueError (''Unknown model: '' @ n)), s)"
  by (simp add: load_try_def known_model_def)

lemma load_try_known:
  "known_model n \<Longrightarrow>
     load_try e cfg n s =
       (case torchani_call e n s of
          (Raise x, s1) \<Rightarrow> (Raise x, s1)
        | (Return m, s1) \<Rightarrow>
          (case to_device_call e n m s1 of
             (Raise x, s2) \<Rightarrow> (Raise x, s2)
           | (Return model, s2) \<Rightarrow>
               let s3 = s2\<lparr>models_in_memory := AList.update n model (models_in_memory s2)\<rparr>;
                   (t, s4) = now e s3;
                   s5 = s4\<lparr>model_last_used := AList.update n t (model_last_used s4)\<rparr>;
                   (t', s6) = now e s5
               in case get_gpu_memory_usage e s6 of
                    (Raise x, s7) \<Rightarrow> (Raise x, s7)
                  | (Return usage, s7) \<Rightarrow>
                      let md = \<lparr> loaded_at = t', device_name = device s7, memory_usage = usage \<rparr>
                      in case redis_call e
                                (RedisSetex (metadata_key n) (redis_model_ttl cfg) md) s7 of
                           (Raise x, s8) \<Rightarrow> (Raise x, s8)
                         | (Return _, s8) \<Rightarrow> (Return model, s8)))"
  unfolding load_try_def known_model_def by (elim disjE) simp_all

lemma load_try_result:
  assumes "load_try e cfg n s = (r, s')"
  shows "(r = Raise (ValueError (''Unknown model: '' @ n)) \<and> s' = s \<and> \<not> known_model n)
       \<or> (r = Raise TorchError \<and>
          models_in_memory s' = models_in_memory s \<and> model_last_used s' = model_last_used s \<and>
          (trace s' = trace s @ [TorchaniModels n False] \<or>
           trace s' = trace s @ [TorchaniModels n True, ToDevice n False]))
       \<or> (\<exists>model t evs.
            models_in_memory s' = AList.update n model (models_in_memory s) \<and>
            model_last_used s' = AList.update n t (model_last_used s) \<and>
            trace s' = trace s @ TorchaniModels n True # ToDevice n True # evs \<and>
            list_all is_setex_event evs \<and>
            (r = Return model \<or> (\<exists>x. r = Raise x)))"
proof (cases "known_model n")
  case False
  with assms show ?thesis by (auto simp add: load_try_unknown)
next
  case True
  show ?thesis
    using assms unfolding load_try_known [OF True]
    by (auto simp: torchani_call_def to_device_call_def now_def get_gpu_memory_usage_def
        redis_call_def Let_def is_setex_event_def
        split: option.splits if_splits prod.splits result.splits)
qed

lemma load_try_misc:
  "load_try e cfg n s = (r, s') \<Longrightarrow> redis_client s' = redis_client s \<and> device s' = device s"
proof (cases "known_model n")
  case False
  assume "load_try e cfg n s = (r, s')"
  with False show ?thesis by (simp add: load_try_unknown)
next
  case True
  assume "load_try e cfg n s = (r, s')"
  then show ?thesis
    unfolding load_try_known [OF True]
    by (auto simp: torchani_call_def to_device_call_def now_def get_gpu_memory_usage_def
        redis_call_def Let_def
        split: option.splits if_splits prod.splits result.splits)
qed


subsection \<open>Loading and acquiring\<close>

lemma load_try_consistent:
  "load_try e cfg n s = (r, s') \<Longrightarrow> consistent s \<Longrightarrow> consistent s'"
  by (drule load_try_result) (auto simp: consistent_def)

lemma load_try_length:
  "load_try e cfg n s = (r, s') \<Longrightarrow>
     length (models_in_memory s') \<le> Suc (length (models_in_memory s))"
  by (drule load_try_result) (auto simp: length_update_le)

lemma load_model_cases:
  assumes "load_model e cfg n s = Some (r, s')"
  shows "\<exists>s2. only_evicts s s2 \<and>
           ((\<exists>x. r = Raise x \<and> s' = s2) \<or>
            (int (length (models_in_memory s2)) < model_max_loaded cfg \<and>
             load_try e cfg n s2 = (r, s')))"
proof -
  from assms obtain p s1 where p: "pressure_loop e cfg s = Some (p, s1)"
    by (auto simp: load_model_def split: option.splits)
  have a: "only_evicts s s1" using p by (rule pressure_loop_only_evicts)
  show ?thesis
  proof (cases p)
    case (Raise x)
    with assms p a show ?thesis by (auto simp: load_model_def)
  next
    case (Return u)
    with assms p obtain q s2 where q: "capacity_loop e cfg s1 = Some (q, s2)"
      by (auto simp: load_model_def split: option.splits)
    have b: "only_evicts s s2"
      using a capacity_loop_only_evicts [OF q] by (rule only_evicts_trans)
    show ?thesis
    proof (cases q)
      case (Raise x)
      with assms p Return q b show ?thesis by (auto simp: load_model_def)
    next
      case Return2: (Return v)
      with q have "int (length (models_in_memory s2)) < model_max_loaded cfg"
        by (auto dest: capacity_loop_below_limit)
      moreover from assms p Return q Return2 have "load_try e cfg n s2 = (r, s')"
        by (simp add: load_model_def)
      ultimately show ?thesis using b by blast
    qed
  qed
qed

lemma load_model_consistent:
  "load_model e cfg n s = Some (r, s') \<Longrightarrow> consistent s \<Longrightarrow> consistent s'"
  by (drule load_model_cases) (auto simp: only_evicts_def dest: load_try_consistent)

lemma load_model_within_capacity:
  assumes "load_model e cfg n s = Some (r, s')"
    and "int (length (models_in_memory s)) \<le> model_max_loaded cfg"
  shows "int (length (models_in_memory s')) \<le> model_max_loaded cfg"
proof -
  from load_model_cases [OF assms(1)] obtain s2 where a: "only_evicts s s2"
    and b: "(\<exists>x. r = Raise x \<and> s' = s2) \<or>
            (int (length (models_in_memory s2)) < model_max_loaded cfg \<and>
             load_try e cfg n s2 = (r, s'))"
    by blast
  from b show ?thesis
  proof
    assume "\<exists>x. r = Raise x \<and> s' = s2"
    with a assms(2) show ?thesis by (auto simp: only_evicts_def)
  next
    assume c: "int (length (models_in_memory s2)) < model_max_loaded cfg \<and>
               load_try e cfg n s2 = (r, s')"
    then have "length (models_in_memory s') \<le> Suc (length (models_in_memory s2))"
      by (auto dest: load_try_length)
    with c show ?thesis by linarith
  qed
qed

lemma load_model_terminates:
  assumes "consistent s" "1 \<le> model_max_loaded cfg"
  shows "\<exists>y. load_model e cfg n s = Some y"
proof -
  obtain p s1 where p: "pressure_loop e cfg s = Some (p, s1)"
    using pressure_loop_terminates [OF assms(1), of e cfg] by auto
  have c1: "consistent s1"
    using pressure_loop_only_evicts [OF p] assms(1) by (simp add: only_evicts_def)
  obtain q s2 where q: "capacity_loop e cfg s1 = Some (q, s2)"
    using capacity_loop_terminates [OF c1 assms(2), of e] by auto
  show ?thesis using p q by (auto simp: load_model_def split: result.splits)
qed

lemma get_model_absent:
  "n \<notin> keys (models_in_memory s) \<Longrightarrow>
     get_model e cfg n s =
       (case redis_call e (RedisGet (metadata_key n)) s of
          (Raise x, s1) \<Rightarrow> Some (Raise x, s1)
        | (Return md, s1) \<Rightarrow> load_model e cfg n s1)"
  by (simp add: get_model_def split: prod.splits result.splits)

lemma get_model_resident:
  "n \<in> keys (models_in_memory s) \<Longrightarrow>
     get_model e cfg n s =
       (let s2 = s\<lparr>n_time := Suc (n_time s),
                   model_last_used := AList.update n (time_time e (n_time s)) (model_last_used s)\<rparr>
        in case redis_call e (RedisExpire (metadata_key n) (redis_model_ttl cfg)) s2 of
             (Raise x, s3) \<Rightarrow> Some (Raise x, s3)
           | (Return _, s3) \<Rightarrow>
               (case map_of (models_in_memory s3) n of
                  None \<Rightarrow> Some (Raise (KeyError n), s3)
                | Some model \<Rightarrow> Some (Return model, s3)))"
  by (simp add: get_model_def now_def Let_def)

lemma redis_call_consistent:
  "redis_call e ev s = (r, s') \<Longrightarrow> consistent s' = consistent s"
  by (drule redis_call_fields) (simp add: consistent_def)

lemma get_model_consistent:
  assumes "get_model e cfg n s = Some (r, s')" "consistent s"
  shows "consistent s'"
proof (cases "n \<in> keys (models_in_memory s)")
  case True
  let ?s2 = "s\<lparr>n_time := Suc (n_time s),
                model_last_used := AList.update n (time_time e (n_time s)) (model_last_used s)\<rparr>"
  have c2: "consistent ?s2" using True assms(2) by (auto simp: consistent_def)
  obtain q s3 where q: "redis_call e (RedisExpire (metadata_key n) (redis_model_ttl cfg)) ?s2 = (q, s3)"
    by (cases "redis_call e (RedisExpire (metadata_key n) (redis_model_ttl cfg)) ?s2")
  have "s' = s3"
    using assms(1) q unfolding get_model_resident [OF True] Let_def
    by (auto split: result.splits option.splits)
  with redis_call_consistent [OF q] c2 show ?thesis by simp
next
  case False
  obtain q s1 where q: "redis_call e (RedisGet (metadata_key n)) s = (q, s1)"
    by (cases "redis_call e (RedisGet (metadata_key n)) s")
  have c1: "consistent s1" using redis_call_consistent [OF q] assms(2) by simp
  show ?thesis
    using assms(1) q c1 unfolding get_model_absent [OF False]
    by (auto split: result.splits dest: load_model_consistent)
qed

lemma get_model_within_capacity:
  assumes "get_model e cfg n s = Some (r, s')"
    and "int (length (models_in_memory s)) \<le> model_max_loaded cfg"
  shows "int (length (models_in_memory s')) \<le> model_max_loaded cfg"
proof (cases "n \<in> keys (models_in_memory s)")
  case True
  let ?s2 = "s\<lparr>n_time := Suc (n_time s),
                model_last_used := AList.update n (time_time e (n_time s)) (model_last_used s)\<rparr>"
  obtain q s3 where q: "redis_call e (RedisExpire (metadata_key n) (redis_model_ttl cfg)) ?s2 = (q, s3)"
    by (cases "redis_call e (RedisExpire (metadata_key n) (redis_model_ttl cfg)) ?s2")
  have "s' = s3"
    using assms(1) q unfolding get_model_resident [OF True] Let_def
    by (auto split: result.splits option.splits)
  with redis_call_fields [OF q] assms(2) show ?thesis by simp
next
  case False
  obtain q s1 where q: "redis_call e (RedisGet (metadata_key n)) s = (q, s1)"
    by (cases "redis_call e (RedisGet (metadata_key n)) s")
  have l: "int (length (models_in_memory s1)) \<le> model_max_loaded cfg"
    using redis_call_fields [OF q] assms(2) by simp
  show ?thesis
    using assms(1) q l unfolding get_model_absent [OF False]
    by (auto split: result.splits dest: load_model_within_capacity)
qed

lemma get_model_terminates:
  assumes "consistent s" "1 \<le> model_max_loaded cfg"
  shows "\<exists>y. get_model e cfg n s = Some y"
proof (cases "n \<in> keys (models_in_memory s)")
  case True
  then show ?thesis
    unfolding get_model_resident [OF True] Let_def
    by (auto split: prod.splits result.splits option.splits)
next
  case False
  obtain q s1 where q: "redis_call e (RedisGet (metadata_key n)) s = (q, s1)"
    by (cases "redis_call e (RedisGet (metadata_key n)) s")
  have c1: "consistent s1" using redis_call_consistent [OF q] assms(1) by simp
  show ?thesis
    using q load_model_terminates [OF c1 assms(2), of e n]
    unfolding get_model_absent [OF False]
    by (auto split: result.splits)
qed

lemma release_fields:
  "models_in_memory (release e n s) = models_in_memory s \<and>
   trace (release e n s) = trace s \<and> redis_client (release e n s) = redis_client s"
  by (simp add: release_def now_def)

lemma release_consistent: "consistent s \<Longrightarrow> consistent (release e n s)"
  by (auto simp: release_def now_def consistent_def)

lemma unload_all_consistent:
  "consistent s \<Longrightarrow> consistent (snd (unload_all e ns s))"
proof (induction ns arbitrary: s)
  case Nil
  then show ?case by simp
next
  case (Cons n ns)
  obtain q s1 where u: "unload_model e n s = (q, s1)" by (cases "unload_model e n s")
  have "consistent s1" using unload_model_consistent [OF u Cons.prems] .
  with u Cons.IH [of s1] show ?case by (cases q) auto
qed

lemma close_consistent: "consistent s \<Longrightarrow> consistent (snd (close e s))"
proof -
  assume c: "consistent s"
  obtain q s1 where q: "(if redis_client s then redis_call e RedisClose s else (Return None, s)) = (q, s1)"
    by (cases "if redis_client s then redis_call e RedisClose s else (Return None, s)")
  have c1: "consistent s1"
    using q c redis_call_consistent [of e RedisClose s q s1] by (auto split: if_splits)
  show ?thesis
    unfolding close_def q using c1 by (cases q) (auto intro: unload_all_consistent)
qed

lemma perform_consistent:
  "perform e cfg c s = Some s' \<Longrightarrow> consistent s \<Longrightarrow> consistent s'"
  by (cases c)
    (auto simp: perform_def release_consistent
      dest: get_model_consistent unload_model_consistent [OF surjective_pairing])

lemma perform_within_capacity:
  "perform e cfg c s = Some s' \<Longrightarrow>
     int (length (models_in_memory s)) \<le> model_max_loaded cfg \<Longrightarrow>
     int (length (models_in_memory s')) \<le> model_max_loaded cfg"
proof (cases c)
  case (Acquire n)
  assume "perform e cfg c s = Some s'" "int (length (models_in_memory s)) \<le> model_max_loaded cfg"
  with Acquire show ?thesis
    by (auto simp: perform_def dest: get_model_within_capacity)
next
  case (Release n)
  assume "perform e cfg c s = Some s'" "int (length (models_in_memory s)) \<le> model_max_loaded cfg"
  with Release show ?thesis
    by (auto simp: perform_def release_fields)
next
  case (Evict n)
  assume a: "perform e cfg c s = Some s'" "int (length (models_in_memory s)) \<le> model_max_loaded cfg"
  have "length (models_in_memory (snd (unload_model e n s))) \<le> length (models_in_memory s)"
    using unload_model_models [OF surjective_pairing, of e n s] by (simp add: length_delete_le)
  with a Evict show ?thesis by (auto simp: perform_def)
qed

lemma perform_terminates:
  "consistent s \<Longrightarrow> 1 \<le> model_max_loaded cfg \<Longrightarrow> \<exists>s'. perform e cfg c s = Some s'"
proof (cases c)
  case (Acquire n)
  assume "consistent s" "1 \<le> model_max_loaded cfg"
  then obtain y where "get_model e cfg n s = Some y"
    using get_model_terminates by blast
  with Acquire show ?thesis by (simp add: perform_def)
qed (simp_all add: perform_def)

lemma run_within_capacity:
  "run e cfg cs s = Some s' \<Longrightarrow>
     int (length (models_in_memory s)) \<le> model_max_loaded cfg \<Longrightarrow>
     int (length (models_in_memory s')) \<le> model_max_loaded cfg"
proof (induction cs arbitrary: s)
  case Nil
  then show ?case by simp
next
  case (Cons c cs)
  from Cons.prems(1) obtain s1 where p: "perform e cfg c s = Some s1"
    and r: "run e cfg cs s1 = Some s'"
    by (auto split: option.splits)
  from perform_within_capacity [OF p Cons.prems(2)] r show ?case by (rule Cons.IH [rotated])
qed

lemma run_terminates:
  "consistent s \<Longrightarrow> 1 \<le> model_max_loaded cfg \<Longrightarrow> \<exists>s'. run e cfg cs s = Some s'"
proof (induction cs arbitrary: s)
  case Nil
  then show ?case by simp
next
  case (Cons c cs)
  from perform_terminates [OF Cons.prems, of e c] obtain s1 where p: "perform e cfg c s = Some s1"
    by blast
  have "consistent s1" using perform_consistent [OF p Cons.prems(1)] .
  from Cons.IH [OF this Cons.prems(2)] p show ?case by simp
qed


subsection \<open>Traces\<close>

lemma new_events_append: "trace s' = trace s @ evs \<Longrightarrow> new_events s s' = evs"
  by (simp add: new_events_def)


lemma load_model_grows:
  assumes "load_model e cfg n s = Some (r, s')"
  shows "(\<exists>evs. trace s' = trace s @ evs) \<and>
         keys (models_in_memory s') \<subseteq> insert n (keys (models_in_memory s))"
proof -
  from load_model_cases [OF assms] obtain s2 where a: "only_evicts s s2"
    and b: "(\<exists>x. r = Raise x \<and> s' = s2) \<or>
            (int (length (models_in_memory s2)) < model_max_loaded cfg \<and>
             load_try e cfg n s2 = (r, s'))"
    by blast
  from a obtain evs where t: "trace s2 = trace s @ evs"
    and k: "keys (models_in_memory s2) \<subseteq> keys (models_in_memory s)"
    by (auto simp: only_evicts_def)
  from b show ?thesis
  proof
    assume "\<exists>x. r = Raise x \<and> s' = s2"
    with t k show ?thesis by auto
  next
    assume "int (length (models_in_memory s2)) < model_max_loaded cfg \<and>
            load_try e cfg n s2 = (r, s')"
    then have "load_try e cfg n s2 = (r, s')" ..
    from load_try_result [OF this] t k show ?thesis by auto
  qed
qed

lemma pressure_loop_step:
  "check_memory_pressure e cfg s = (Return True, sg) \<Longrightarrow> models_in_memory sg \<noteq> [] \<Longrightarrow>
   evict_oldest_model e sg = (q, s2) \<Longrightarrow>
   pressure_loop e cfg s =
     (case q of Raise x \<Rightarrow> Some (Raise x, s2) | Return _ \<Rightarrow> pressure_loop e cfg s2)"
  by (subst pressure_loop.simps) (simp split: result.splits)

lemma load_model_step:
  "check_memory_pressure e cfg s = (Return True, sg) \<Longrightarrow> models_in_memory sg \<noteq> [] \<Longrightarrow>
   evict_oldest_model e sg = (q, s2) \<Longrightarrow>
   load_model e cfg n s =
     (case q of Raise x \<Rightarrow> Some (Raise x, s2) | Return _ \<Rightarrow> load_model e cfg n s2)"
  by (simp add: load_model_def pressure_loop_step split: result.splits)

lemma get_model_returns_resident:
  assumes "get_model e cfg n s = Some (Return h, s')"
  shows "map_of (models_in_memory s') n = Some h"
proof (cases "n \<in> keys (models_in_memory s)")
  case True
  let ?s2 = "s\<lparr>n_time := Suc (n_time s),
                model_last_used := AList.update n (time_time e (n_time s)) (model_last_used s)\<rparr>"
  obtain q s3 where q: "redis_call e (RedisExpire (metadata_key n) (redis_model_ttl cfg)) ?s2 = (q, s3)"
    by (cases "redis_call e (RedisExpire (metadata_key n) (redis_model_ttl cfg)) ?s2")
  show ?thesis
    using assms q unfolding get_model_resident [OF True] Let_def
    by (auto split: result.splits option.splits)
next
  case False
  obtain q s1 where q: "redis_call e (RedisGet (metadata_key n)) s = (q, s1)"
    by (cases "redis_call e (RedisGet (metadata_key n)) s")
  from assms q have "load_model e cfg n s1 = Some (Return h, s')"
    unfolding get_model_absent [OF False] by (auto split: result.splits)
  from load_model_cases [OF this] obtain s2 where "load_try e cfg n s2 = (Return h, s')"
    by auto
  from load_try_result [OF this] show ?thesis by (auto simp: update_conv')
qed

subsection \<open>Store failures\<close>

lemma metadata_key_inject [simp]: "metadata_key v = metadata_key w \<longleftrightarrow> v = w"
  by (simp add: metadata_key_def)

lemma store_failed_simps [simp]:
  "store_failed [] = False"
  "store_failed (xs @ ys) = (store_failed xs \<or> store_failed ys)"
  "store_failed (ev # xs) = (is_store_failure ev \<or> store_failed xs)"
  by (simp_all add: store_failed_def)

lemma setex_failed_simps [simp]:
  "setex_failed [] = False"
  "setex_failed (xs @ ys) = (setex_failed xs \<or> setex_failed ys)"
  "setex_failed (ev # xs) = (is_setex_event ev \<and> is_store_failure ev \<or> setex_failed xs)"
  by (simp_all add: setex_failed_def)

lemma is_store_failure_simps [simp]:
  "is_store_failure (Unloaded n) = False"
  "is_store_failure (TorchaniModels n b) = False"
  "is_store_failure (ToDevice n b) = False"
  "is_store_failure (RedisSetex k ttl md ok) = (\<not> ok)"
  "is_store_failure (RedisExpire k ttl ok) = (\<not> ok)"
  "is_store_failure (RedisGet k ok) = (\<not> ok)"
  "is_store_failure (RedisDelete k ok) = (\<not> ok)"
  "is_store_failure (RedisClose ok) = (\<not> ok)"
  by (simp_all add: is_store_failure_def)

lemma is_setex_event_simps [simp]:
  "is_setex_event (Unloaded n) = False"
  "is_setex_event (TorchaniModels n b) = False"
  "is_setex_event (ToDevice n b) = False"
  "is_setex_event (RedisSetex k ttl md ok) = True"
  "is_setex_event (RedisExpire k ttl ok) = False"
  "is_setex_event (RedisGet k ok) = False"
  "is_setex_event (RedisDelete k ok) = False"
  "is_setex_event (RedisClose ok) = False"
  by (simp_all add: is_setex_event_def)

lemma evicts_cleanly_same_trace: "trace s' = trace s \<Longrightarrow> evicts_cleanly s r s'"
  by (simp add: evicts_cleanly_def)

lemma evicts_cleanly_trans:
  assumes "evicts_cleanly s (Return u) s1" "keys (models_in_memory s1) \<subseteq> keys (models_in_memory s)"
    and "evicts_cleanly s1 r s'"
  shows "evicts_cleanly s r s'"
proof -
  from assms(1) obtain evs1 where t1: "trace s1 = trace s @ evs1"
    and c1: "\<not> setex_failed evs1" "\<not> store_failed evs1"
    by (auto simp: evicts_cleanly_def)
  from assms(3) obtain evs2 where t2: "trace s' = trace s1 @ evs2"
    and c2: "\<not> setex_failed evs2"
    and f2: "store_failed evs2 \<longrightarrow>
           r = Raise RedisError \<and>
           (\<exists>v pre. evs2 = pre @ [RedisDelete (metadata_key v) False] \<and> \<not> store_failed pre \<and>
              v \<in> keys (models_in_memory s1) \<and> v \<notin> keys (models_in_memory s'))"
    by (auto simp: evicts_cleanly_def)
  have "store_failed (evs1 @ evs2) \<longrightarrow>
           r = Raise RedisError \<and>
           (\<exists>v pre. evs1 @ evs2 = pre @ [RedisDelete (metadata_key v) False] \<and> \<not> store_failed pre \<and>
              v \<in> keys (models_in_memory s) \<and> v \<notin> keys (models_in_memory s'))"
  proof
    assume "store_failed (evs1 @ evs2)"
    with c1 have "store_failed evs2" by simp
    with f2 obtain v pre where r: "r = Raise RedisError"
      and p: "evs2 = pre @ [RedisDelete (metadata_key v) False]" "\<not> store_failed pre"
        "v \<in> keys (models_in_memory s1)" "v \<notin> keys (models_in_memory s')"
      by blast
    have "evs1 @ evs2 = (evs1 @ pre) @ [RedisDelete (metadata_key v) False]"
      using p(1) by simp
    moreover have "\<not> store_failed (evs1 @ pre)" using c1 p(2) by simp
    moreover have "v \<in> keys (models_in_memory s)" using p(3) assms(2) by blast
    ultimately show "r = Raise RedisError \<and>
           (\<exists>v pre. evs1 @ evs2 = pre @ [RedisDelete (metadata_key v) False] \<and> \<not> store_failed pre \<and>
              v \<in> keys (models_in_memory s) \<and> v \<notin> keys (models_in_memory s'))"
      using r p(4) by blast
  qed
  moreover have "trace s' = trace s @ (evs1 @ evs2)" using t1 t2 by simp
  moreover have "\<not> setex_failed (evs1 @ evs2)" using c1 c2 by simp
  ultimately show ?thesis unfolding evicts_cleanly_def by blast
qed

lemma unload_model_cleanly:
  assumes "unload_model e n s = (r, s')"
  shows "evicts_cleanly s r s'"
proof (cases "n \<in> keys (models_in_memory s)")
  case False
  with assms show ?thesis by (simp add: unload_model_def evicts_cleanly_same_trace)
next
  case True
  show ?thesis
  proof (cases "n \<in> keys (model_last_used s) \<and> redis_client s")
    case False
    with assms True have "trace s' = trace s @ [Unloaded n]"
      by (auto simp: unload_model_def redis_call_def Let_def split: if_splits)
    then show ?thesis by (simp add: evicts_cleanly_def)
  next
    case both: True
    show ?thesis
    proof (cases "redis_raises e (n_redis s)")
      case False
      with assms True both
      have "trace s' = trace s @ [Unloaded n, RedisDelete (metadata_key n) True]"
        by (auto simp: unload_model_def redis_call_def Let_def)
      then show ?thesis by (simp add: evicts_cleanly_def)
    next
      case fail: True
      with assms True both
      have t: "trace s' = trace s @ [Unloaded n] @ [RedisDelete (metadata_key n) False]"
        and r: "r = Raise RedisError"
        and m: "models_in_memory s' = AList.delete n (models_in_memory s)"
        by (auto simp: unload_model_def redis_call_def Let_def)
      have "\<exists>v pre. [Unloaded n] @ [RedisDelete (metadata_key n) False]
                = pre @ [RedisDelete (metadata_key v) False] \<and> \<not> store_failed pre \<and>
              v \<in> keys (models_in_memory s) \<and> v \<notin> keys (models_in_memory s')"
        using True m by (intro exI [of _ n] exI [of _ "[Unloaded n]"]) simp
      with t r show ?thesis unfolding evicts_cleanly_def
        by (intro exI [of _ "[Unloaded n] @ [RedisDelete (metadata_key n) False]"]) simp
    qed
  qed
qed

lemma evict_oldest_model_cleanly:
  "evict_oldest_model e s = (r, s') \<Longrightarrow> evicts_cleanly s r s'"
  by (auto simp: evict_oldest_model_def evicts_cleanly_same_trace
      split: if_splits option.splits dest: unload_model_cleanly)

lemma pressure_loop_cleanly_aux:
  "pressure_loop e cfg s = Some y \<Longrightarrow> evicts_cleanly s (fst y) (snd y)"
proof (induction rule: pressure_loop.raw_induct [rotated 1, consumes 1])
  case (1 loop e cfg s y)
  obtain p s1 where c: "check_memory_pressure e cfg s = (p, s1)"
    by (cases "check_memory_pressure e cfg s")
  note k = check_memory_pressure_keeps [OF c]
  have a: "evicts_cleanly s r s1" for r using k by (simp add: evicts_cleanly_same_trace)
  show ?case
  proof (cases p)
    case (Raise x)
    with 1(2) c a show ?thesis by auto
  next
    case (Return pressure)
    show ?thesis
    proof (cases "pressure \<and> models_in_memory s1 \<noteq> []")
      case False
      with 1(2) c a Return show ?thesis by auto
    next
      case True
      obtain q s2 where ev: "evict_oldest_model e s1 = (q, s2)"
        by (cases "evict_oldest_model e s1")
      have b: "evicts_cleanly s1 q s2" using ev by (rule evict_oldest_model_cleanly)
      have kb: "keys (models_in_memory s2) \<subseteq> keys (models_in_memory s1)"
        using evict_oldest_model_only_evicts [OF ev] by (simp add: only_evicts_def)
      show ?thesis
      proof (cases q)
        case (Raise x)
        with 1(2) c Return True ev have "y = (Raise x, s2)" by auto
        moreover have "evicts_cleanly s (Raise x) s2"
          using evicts_cleanly_trans [OF a _ b [unfolded Raise]] k by simp
        ultimately show ?thesis by simp
      next
        case Return2: (Return u)
        with 1(2) c Return True ev have "loop e cfg s2 = Some y" by simp
        then have d: "evicts_cleanly s2 (fst y) (snd y)" by (rule 1(1))
        have "evicts_cleanly s (Return u) s2"
          using evicts_cleanly_trans [OF a _ b [unfolded Return2]] k by simp
        moreover have "keys (models_in_memory s2) \<subseteq> keys (models_in_memory s)"
          using kb k by simp
        ultimately show ?thesis using d by (rule evicts_cleanly_trans)
      qed
    qed
  qed
qed

lemma capacity_loop_cleanly_aux:
  "capacity_loop e cfg s = Some y \<Longrightarrow> evicts_cleanly s (fst y) (snd y)"
proof (induction rule: capacity_loop.raw_induct [rotated 1, consumes 1])
  case (1 loop e cfg s y)
  show ?case
  proof (cases "int (length (models_in_memory s)) \<ge> model_max_loaded cfg")
    case False
    with 1(2) show ?thesis by (auto simp add: evicts_cleanly_same_trace)
  next
    case True
    obtain q s1 where ev: "evict_oldest_model e s = (q, s1)"
      by (cases "evict_oldest_model e s")
    have b: "evicts_cleanly s q s1" using ev by (rule evict_oldest_model_cleanly)
    have kb: "keys (models_in_memory s1) \<subseteq> keys (models_in_memory s)"
      using evict_oldest_model_only_evicts [OF ev] by (simp add: only_evicts_def)
    show ?thesis
    proof (cases q)
      case (Raise x)
      with 1(2) True ev b show ?thesis by auto
    next
      case (Return u)
      with 1(2) True ev have "loop e cfg s1 = Some y" by simp
      then have "evicts_cleanly s1 (fst y) (snd y)" by (rule 1(1))
      with b [unfolded Return] kb show ?thesis by (rule evicts_cleanly_trans)
    qed
  qed
qed


lemma delete_failed_store_failed: "delete_failed v evs \<Longrightarrow> store_failed evs"
  unfolding delete_failed_def store_failed_def list_ex_iff
  by (rule bexI [of _ "RedisDelete (metadata_key v) False"]) simp_all

lemma load_try_store:
  assumes "load_try e cfg n s = (r, s')"
  shows "\<exists>evs. trace s' = trace s @ evs \<and> (\<forall>v. \<not> delete_failed v evs) \<and>
           (setex_failed evs \<longrightarrow> store_failed evs) \<and>
           (store_failed evs \<longrightarrow>
              r = Raise RedisError \<and> setex_failed evs \<and>
              n \<in> keys (models_in_memory s') \<and> n \<in> keys (model_last_used s'))"
proof (cases "known_model n")
  case False
  with assms show ?thesis by (simp add: load_try_unknown delete_failed_def)
next
  case True
  show ?thesis
    using assms unfolding load_try_known [OF True]
    by (auto simp: torchani_call_def to_device_call_def now_def get_gpu_memory_usage_def
        redis_call_def Let_def delete_failed_def
        split: option.splits if_splits prod.splits result.splits)
qed

lemma load_model_store:
  assumes "load_model e cfg n s = Some (r, s')"
  shows "\<exists>evs. trace s' = trace s @ evs \<and>
           (store_failed evs \<longrightarrow> r = Raise RedisError) \<and>
           (\<forall>v. delete_failed v evs \<longrightarrow>
                v \<in> keys (models_in_memory s) \<and> v \<notin> keys (models_in_memory s') \<and>
                keys (models_in_memory s') \<subseteq> keys (models_in_memory s) \<and>
                (consistent s \<longrightarrow> v \<notin> keys (model_last_used s'))) \<and>
           (setex_failed evs \<longrightarrow>
                n \<in> keys (models_in_memory s') \<and> n \<in> keys (model_last_used s'))"
proof -
  have stop: ?thesis if oe: "only_evicts s s2" and cl: "evicts_cleanly s (Raise x) s2"
    and r: "r = Raise x" "s' = s2" for x s2
  proof -
    from cl obtain evs where t: "trace s2 = trace s @ evs" and ns: "\<not> setex_failed evs"
      and f: "store_failed evs \<longrightarrow> x = RedisError \<and>
           (\<exists>v pre. evs = pre @ [RedisDelete (metadata_key v) False] \<and> \<not> store_failed pre \<and>
              v \<in> keys (models_in_memory s) \<and> v \<notin> keys (models_in_memory s2))"
      by (auto simp: evicts_cleanly_def)
    have d: "v \<in> keys (models_in_memory s) \<and> v \<notin> keys (models_in_memory s2)"
      if "delete_failed v evs" for v
    proof -
      from that have "store_failed evs" by (rule delete_failed_store_failed)
      with f obtain w pre where p: "evs = pre @ [RedisDelete (metadata_key w) False]"
        "\<not> store_failed pre" "w \<in> keys (models_in_memory s)" "w \<notin> keys (models_in_memory s2)"
        by blast
      from p(2) have "RedisDelete (metadata_key v) False \<notin> set pre"
        using delete_failed_store_failed [of v pre] by (auto simp: delete_failed_def)
      with that p(1) have "v = w" by (auto simp: delete_failed_def)
      with p show ?thesis by simp
    qed
    from oe have k: "keys (models_in_memory s2) \<subseteq> keys (models_in_memory s)"
      and c: "consistent s \<longrightarrow> consistent s2"
      by (auto simp: only_evicts_def)
    show ?thesis
      using t ns f d k c r
      by (intro exI [of _ evs]) (auto simp: consistent_def)
  qed
  from assms obtain p s1 where p: "pressure_loop e cfg s = Some (p, s1)"
    by (auto simp: load_model_def split: option.splits)
  have a: "only_evicts s s1" using p by (rule pressure_loop_only_evicts)
  have ca: "evicts_cleanly s p s1" using pressure_loop_cleanly_aux [OF p] by simp
  show ?thesis
  proof (cases p)
    case (Raise x)
    with assms p have "r = Raise x" "s' = s1" by (auto simp: load_model_def)
    with a ca [unfolded Raise] show ?thesis by (rule stop)
  next
    case (Return u)
    with assms p obtain q s2 where q: "capacity_loop e cfg s1 = Some (q, s2)"
      by (auto simp: load_model_def split: option.splits)
    have b: "only_evicts s1 s2" using q by (rule capacity_loop_only_evicts)
    have ab: "only_evicts s s2" using a b by (rule only_evicts_trans)
    have cb: "evicts_cleanly s1 q s2" using capacity_loop_cleanly_aux [OF q] by simp
    have k1: "keys (models_in_memory s1) \<subseteq> keys (models_in_memory s)"
      using a by (simp add: only_evicts_def)
    have cab: "evicts_cleanly s q s2"
      using ca [unfolded Return] k1 cb by (rule evicts_cleanly_trans)
    show ?thesis
    proof (cases q)
      case (Raise x)
      with assms p Return q have "r = Raise x" "s' = s2" by (auto simp: load_model_def)
      with ab cab [unfolded Raise] show ?thesis by (rule stop)
    next
      case Return2: (Return w)
      with assms p Return q have lt: "load_try e cfg n s2 = (r, s')"
        by (simp add: load_model_def)
      from cab [unfolded Return2] obtain evs1 where t1: "trace s2 = trace s @ evs1"
        and c1: "\<not> setex_failed evs1" "\<not> store_failed evs1"
        by (auto simp: evicts_cleanly_def)
      from load_try_store [OF lt] obtain evs2 where t2: "trace s' = trace s2 @ evs2"
        and nd: "\<forall>v. \<not> delete_failed v evs2"
        and sf: "setex_failed evs2 \<longrightarrow> store_failed evs2"
        and f2: "store_failed evs2 \<longrightarrow>
              r = Raise RedisError \<and> setex_failed evs2 \<and>
              n \<in> keys (models_in_memory s') \<and> n \<in> keys (model_last_used s')"
        by blast
      have nd1: "\<not> delete_failed v evs1" for v
        using c1(2) delete_failed_store_failed [of v evs1] by blast
      have "\<not> delete_failed v (evs1 @ evs2)" for v
        using nd nd1 [of v] by (auto simp: delete_failed_def)
      moreover have "trace s' = trace s @ (evs1 @ evs2)" using t1 t2 by simp
      moreover have "store_failed (evs1 @ evs2) \<longrightarrow> r = Raise RedisError"
        using c1 f2 by simp
      moreover have "setex_failed (evs1 @ evs2) \<longrightarrow>
                n \<in> keys (models_in_memory s') \<and> n \<in> keys (model_last_used s')"
        using c1 sf f2 by simp
      ultimately show ?thesis by (intro exI [of _ "evs1 @ evs2"]) blast
    qed
  qed
qed

lemma get_model_store:
  assumes "get_model e cfg n s = Some (r, s')"
  shows "\<exists>evs. trace s' = trace s @ evs \<and>
           (store_failed evs \<longrightarrow> r = Raise RedisError) \<and>
           (\<forall>v. delete_failed v evs \<longrightarrow>
                v \<in> keys (models_in_memory s) \<and> v \<notin> keys (models_in_memory s') \<and>
                keys (models_in_memory s') \<subseteq> keys (models_in_memory s) \<and>
                (consistent s \<longrightarrow> v \<notin> keys (model_last_used s'))) \<and>
           (setex_failed evs \<longrightarrow>
                n \<in> keys (models_in_memory s') \<and> n \<in> keys (model_last_used s'))"
proof (cases "n \<in> keys (models_in_memory s)")
  case True
  show ?thesis
    using assms unfolding get_model_resident [OF True] Let_def
    by (auto simp: redis_call_def Let_def delete_failed_def
        split: if_splits option.splits)
next
  case False
  show ?thesis
  proof (cases "redis_client s \<and> \<not> redis_raises e (n_redis s)")
    case stop: False
    show ?thesis
      using assms stop unfolding get_model_absent [OF False]
      by (auto simp: redis_call_def Let_def delete_failed_def split: if_splits)
  next
    case ok: True
    let ?s1 = "s\<lparr>n_redis := Suc (n_redis s), trace := trace s @ [RedisGet (metadata_key n) True]\<rparr>"
    from assms ok have l: "load_model e cfg n ?s1 = Some (r, s')"
      unfolding get_model_absent [OF False] by (simp add: redis_call_def Let_def)
    from load_model_store [OF l] obtain evs where t: "trace s' = trace ?s1 @ evs"
      and f: "store_failed evs \<longrightarrow> r = Raise RedisError"
      and d: "\<forall>v. delete_failed v evs \<longrightarrow>
                v \<in> keys (models_in_memory ?s1) \<and> v \<notin> keys (models_in_memory s') \<and>
                keys (models_in_memory s') \<subseteq> keys (models_in_memory ?s1) \<and>
                (consistent ?s1 \<longrightarrow> v \<notin> keys (model_last_used s'))"
      and x: "setex_failed evs \<longrightarrow>
                n \<in> keys (models_in_memory s') \<and> n \<in> keys (model_last_used s')"
      by blast
    have dd: "delete_failed v (RedisGet (metadata_key n) True # evs) = delete_failed v evs" for v
      by (simp add: delete_failed_def)
    have cc: "consistent ?s1 = consistent s" by (simp add: consistent_def)
    show ?thesis
      using t f d x
      by (intro exI [of _ "RedisGet (metadata_key n) True # evs"]) (simp add: dd cc)
  qed
qed

section \<open>The example states are reachable\<close>

lemma connected_reachable:
  "initialize cpu_env default_settings (init cpu_env default_settings) = Some connected"
  by (simp add: initialize_def init_def default_settings_def cpu_env_def connected_def)

lemma connected_gpu_reachable:
  "initialize busy_gpu_env default_settings (init busy_gpu_env default_settings)
     = Some connected_gpu"
  by (simp add: initialize_def init_def default_settings_def busy_gpu_env_def cpu_env_def
      connected_gpu_def connected_def)

lemma two_loaded_reachable:
  "run cpu_env default_settings [Acquire ''ANI1x'', Acquire ''ANI2x''] connected
     = Some two_loaded"
  by code_simp

lemma one_loaded_reachable:
  "run busy_gpu_env default_settings [Acquire ''ANI1x''] connected_gpu = Some one_loaded"
  by code_simp

lemma consistent_two_loaded: "consistent two_loaded"
  by (simp add: consistent_def two_loaded_def keys_def)

lemma consistent_one_loaded: "consistent one_loaded"
  by (simp add: consistent_def one_loaded_def keys_def)

section \<open>The claims about the cache\<close>

text \<open>
  Claim C1. For every sequence of acquire, release and evict calls, the number of resident
  models is at most \<open>model_max_loaded\<close> after each call that completes. Stated for a run
  that starts in any state within the limit (the empty manager is, for a limit that is
  not negative); every prefix of a sequence is a sequence, so the bound holds after each
  call. The second part says that the statement is not empty: with a limit of at least
  one and consistent bookkeeping every call of the run returns.
\<close>

theorem resident_models_within_capacity:
  assumes "int (length (models_in_memory s)) \<le> model_max_loaded cfg"
  shows "(run e cfg calls s = Some s' \<longrightarrow>
            int (length (models_in_memory s')) \<le> model_max_loaded cfg)
       \<and> (consistent s \<and> 1 \<le> model_max_loaded cfg \<longrightarrow> (\<exists>s''. run e cfg calls s = Some s''))"
  using assms run_within_capacity [of e cfg calls s s'] run_terminates [of s cfg e calls]
  by blast

text \<open>
  The theorem on the CPU machine with the default limit of two: ANI1x and ANI2x are
  acquired, ANI1x is released, and the acquire of ANI1ccx evicts ANI2x.
\<close>

theorem resident_models_within_capacity_witness:
  "\<exists>s'. run cpu_env default_settings
           [Acquire ''ANI1x'', Acquire ''ANI2x'', Release ''ANI1x'', Acquire ''ANI1ccx'']
           connected = Some s'
       \<and> models_in_memory s' = [(''ANI1x'', 0), (''ANI1ccx'', 4)]
       \<and> int (length (models_in_memory s')) \<le> model_max_loaded default_settings"
proof -
  let ?calls = "[Acquire ''ANI1x'', Acquire ''ANI2x'', Release ''ANI1x'', Acquire ''ANI1ccx'']"
  have "map_option models_in_memory (run cpu_env default_settings ?calls connected)
          = Some [(''ANI1x'', 0), (''ANI1ccx'', 4)]"
    by code_simp
  then obtain s' where r: "run cpu_env default_settings ?calls connected = Some s'"
    and m: "models_in_memory s' = [(''ANI1x'', 0), (''ANI1ccx'', 4)]"
    by auto
  have le: "int (length (models_in_memory connected)) \<le> model_max_loaded default_settings"
    by (simp add: connected_def default_settings_def)
  from resident_models_within_capacity [OF le, of cpu_env ?calls s'] r m
  show ?thesis by blast
qed

lemma get_model_context_consistent:
  "get_model_context e cfg n body s = Some (r, s') \<Longrightarrow> consistent s \<Longrightarrow> consistent s'"
  by (auto simp: get_model_context_def split: option.splits result.splits
      dest: get_model_consistent intro!: release_consistent)

lemma get_model_context_terminates:
  assumes "consistent s" "1 \<le> model_max_loaded cfg"
  shows "\<exists>y. get_model_context e cfg n body s = Some y"
proof -
  from get_model_terminates [OF assms, of e n] obtain r s1
    where "get_model e cfg n s = Some (r, s1)" by auto
  then show ?thesis by (cases r) (simp_all add: get_model_context_def)
qed

text \<open>
  Claim C10. Every cache operation (\<open>get_model\<close>, \<open>load_model\<close>, \<open>unload_model\<close>,
  \<open>get_model_context\<close>, \<open>close\<close>, and the release) keeps the key set of
  \<open>models_in_memory\<close> equal to the key set of \<open>model_last_used\<close>: a model has a last-used
  timestamp exactly when it is resident. This holds whether the operation returns or
  raises, whatever the store, the loaders, the clock and the gauge do. The last part says
  that with a limit of at least one the three operations that loop do return.
\<close>

theorem key_sets_agree_after_every_operation:
  assumes "consistent s"
  shows "(get_model e cfg n s = Some (r1, s1) \<longrightarrow> consistent s1)
       \<and> (load_model e cfg n s = Some (r2, s2) \<longrightarrow> consistent s2)
       \<and> consistent (snd (unload_model e n s))
       \<and> (get_model_context e cfg n body s = Some (r3, s3) \<longrightarrow> consistent s3)
       \<and> consistent (snd (close e s))
       \<and> consistent (release e n s)
       \<and> (1 \<le> model_max_loaded cfg \<longrightarrow>
            (\<exists>y. get_model e cfg n s = Some y) \<and> (\<exists>y. load_model e cfg n s = Some y) \<and>
            (\<exists>y. get_model_context e cfg n body s = Some y))"
proof (intro conjI impI)
  show "consistent s1" if "get_model e cfg n s = Some (r1, s1)"
    using that assms by (rule get_model_consistent)
  show "consistent s2" if "load_model e cfg n s = Some (r2, s2)"
    using that assms by (rule load_model_consistent)
  show "consistent (snd (unload_model e n s))"
    using unload_model_consistent [OF surjective_pairing assms] .
  show "consistent s3" if "get_model_context e cfg n body s = Some (r3, s3)"
    using that assms by (rule get_model_context_consistent)
  show "consistent (snd (close e s))"
    using assms by (rule close_consistent)
  show "consistent (release e n s)"
    using assms by (rule release_consistent)
  show "\<exists>y. get_model e cfg n s = Some y" if "1 \<le> model_max_loaded cfg"
    using assms that by (rule get_model_terminates)
  show "\<exists>y. load_model e cfg n s = Some y" if "1 \<le> model_max_loaded cfg"
    using assms that by (rule load_model_terminates)
  show "\<exists>y. get_model_context e cfg n body s = Some y" if "1 \<le> model_max_loaded cfg"
    using assms that by (rule get_model_context_terminates)
qed

text \<open>The theorem at the manager that holds ANI1x and ANI2x.\<close>

theorem key_sets_agree_after_every_operation_witness:
  "consistent two_loaded
   \<and> consistent (snd (unload_model cpu_env ''ANI2x'' two_loaded))
   \<and> consistent (snd (close cpu_env two_loaded))
   \<and> consistent (release cpu_env ''ANI1x'' two_loaded)
   \<and> (\<exists>r s1. get_model cpu_env default_settings ''ANI1ccx'' two_loaded = Some (r, s1)
         \<and> consistent s1 \<and> keys (models_in_memory s1) = {''ANI2x'', ''ANI1ccx''})"
proof -
  note c = consistent_two_loaded
  have "map_option (models_in_memory \<circ> snd) (get_model cpu_env default_settings ''ANI1ccx'' two_loaded)
          = Some [(''ANI2x'', 2), (''ANI1ccx'', 4)]"
    by code_simp
  then obtain r s1 where g: "get_model cpu_env default_settings ''ANI1ccx'' two_loaded = Some (r, s1)"
    and m: "models_in_memory s1 = [(''ANI2x'', 2), (''ANI1ccx'', 4)]"
    by auto
  from m have k: "keys (models_in_memory s1) = {''ANI2x'', ''ANI1ccx''}"
    by (simp add: keys_def)
  note t = key_sets_agree_after_every_operation [OF c, of cpu_env default_settings]
  from t [of "''ANI1ccx''" r s1, THEN conjunct1] g have c1: "consistent s1" by simp
  have c2: "consistent (snd (unload_model cpu_env ''ANI2x'' two_loaded))"
    by (rule t [THEN conjunct2, THEN conjunct2, THEN conjunct1])
  have c3: "consistent (snd (close cpu_env two_loaded))"
    by (rule t [THEN conjunct2, THEN conjunct2, THEN conjunct2, THEN conjunct2, THEN conjunct1])
  have c4: "consistent (release cpu_env ''ANI1x'' two_loaded)"
    by (rule t [THEN conjunct2, THEN conjunct2, THEN conjunct2, THEN conjunct2, THEN conjunct2,
          THEN conjunct1])
  from g c1 k have "\<exists>r s1. get_model cpu_env default_settings ''ANI1ccx'' two_loaded = Some (r, s1)
         \<and> consistent s1 \<and> keys (models_in_memory s1) = {''ANI2x'', ''ANI1ccx''}"
    by (intro exI conjI)
  with c c2 c3 c4 show ?thesis by (intro conjI)
qed

text \<open>
  Claim C4. When \<open>evict_oldest_model\<close> runs on a manager that holds a model, the entry it
  removes has the least last-used timestamp of all entries (LRU); the entry is removed from
  both dictionaries also when the store's delete raises afterwards. With timestamps
  \<open>[10, 5, 20]\<close> the entry with timestamp 5 goes. The bookkeeping is taken to be
  consistent, as it is in every state the operations reach (Claim C10).
\<close>

theorem evict_oldest_model_removes_least_recently_used:
  assumes "models_in_memory s \<noteq> []" and "consistent s"
    and "evict_oldest_model e s = (r, s')"
  shows "\<exists>n t. (n, t) \<in> set (model_last_used s) \<and>
           (\<forall>(n', t') \<in> set (model_last_used s). t \<le> t') \<and>
           n \<in> keys (models_in_memory s) \<and>
           models_in_memory s' = AList.delete n (models_in_memory s) \<and>
           model_last_used s' = AList.delete n (model_last_used s) \<and>
           n \<notin> keys (models_in_memory s')"
proof -
  from evict_oldest_model_removes [OF assms(3,2,1)] obtain n
    where n: "min_key (model_last_used s) = Some n" "n \<in> keys (models_in_memory s)"
      "models_in_memory s' = AList.delete n (models_in_memory s)"
      "model_last_used s' = AList.delete n (model_last_used s)"
    by blast
  from min_key_Some [OF n(1)] obtain t where "(n, t) \<in> set (model_last_used s)"
    "\<forall>(n', t') \<in> set (model_last_used s). t \<le> t'" by blast
  with n show ?thesis by auto
qed

text \<open>The theorem at the manager whose models were last used at 10, 5 and 20.\<close>

theorem evict_oldest_model_removes_least_recently_used_witness:
  "model_last_used three_loaded = [(''ANI1x'', 10), (''ANI2x'', 5), (''ANI1ccx'', 20)]
   \<and> models_in_memory (snd (evict_oldest_model cpu_env three_loaded))
       = [(''ANI1x'', 0), (''ANI1ccx'', 4)]
   \<and> model_last_used (snd (evict_oldest_model cpu_env three_loaded))
       = [(''ANI1x'', 10), (''ANI1ccx'', 20)]"
proof -
  have ne: "models_in_memory three_loaded \<noteq> []" by (simp add: three_loaded_def)
  have c: "consistent three_loaded" by (simp add: consistent_def three_loaded_def keys_def)
  have l: "model_last_used three_loaded = [(''ANI1x'', 10), (''ANI2x'', 5), (''ANI1ccx'', 20)]"
    by (simp add: three_loaded_def)
  have m: "models_in_memory three_loaded = [(''ANI1x'', 0), (''ANI2x'', 2), (''ANI1ccx'', 4)]"
    by (simp add: three_loaded_def)
  from evict_oldest_model_removes_least_recently_used [OF ne c surjective_pairing, of cpu_env]
  obtain n t where nt: "(n, t) \<in> set (model_last_used three_loaded)"
    and least: "\<forall>(n', t') \<in> set (model_last_used three_loaded). t \<le> t'"
    and r: "models_in_memory (snd (evict_oldest_model cpu_env three_loaded))
              = AList.delete n (models_in_memory three_loaded)"
       "model_last_used (snd (evict_oldest_model cpu_env three_loaded))
              = AList.delete n (model_last_used three_loaded)"
    by blast
  from nt least have "n = ''ANI2x''" unfolding l by auto
  with r l m show ?thesis by simp
qed

lemma check_memory_pressure_after_redis:
  "fst (check_memory_pressure e cfg (s\<lparr>n_redis := a, trace := b\<rparr>))
     = fst (check_memory_pressure e cfg s)"
  by (simp add: check_memory_pressure_def get_gpu_memory_usage_def Let_def
      split: prod.splits result.splits)

text \<open>
  Claim C5, amended. If the memory check reads above the threshold, the manager holds a
  model, and the store read at the start of \<open>get_model\<close> does not raise, then the acquire
  of a non-resident model evicts the least recently used entry at once: the unload is the
  first event after the store read, so every call of a loader comes after it, and the
  victim is not resident afterwards. With a limit of at least one the acquire returns.
\<close>

theorem pressure_evicts_before_loading:
  assumes "consistent s" and "models_in_memory s \<noteq> []"
    and "n \<notin> keys (models_in_memory s)"
    and "fst (check_memory_pressure e cfg s) = Return True"
    and "redis_client s" and "\<not> redis_raises e (n_redis s)"
  shows "(get_model e cfg n s = Some (r, s') \<longrightarrow>
            (\<exists>victim evs.
                min_key (model_last_used s) = Some victim \<and>
                victim \<in> keys (models_in_memory s) \<and>
                victim \<notin> keys (models_in_memory s') \<and>
                trace s' = trace s @ RedisGet (metadata_key n) True # Unloaded victim # evs))
       \<and> (1 \<le> model_max_loaded cfg \<longrightarrow> (\<exists>y. get_model e cfg n s = Some y))"
proof (intro conjI impI)
  let ?s1 = "s\<lparr>n_redis := Suc (n_redis s), trace := trace s @ [RedisGet (metadata_key n) True]\<rparr>"
  assume g: "get_model e cfg n s = Some (r, s')"
  have rc: "redis_call e (RedisGet (metadata_key n)) s = (Return (redis_value e (n_redis s)), ?s1)"
    using assms(5,6) by (simp add: redis_call_def Let_def)
  have g1: "load_model e cfg n ?s1 = Some (r, s')"
    using g by (simp add: get_model_absent [OF assms(3)] rc)
  obtain p sg where chk: "check_memory_pressure e cfg ?s1 = (p, sg)"
    by (cases "check_memory_pressure e cfg ?s1")
  have "fst (check_memory_pressure e cfg ?s1) = Return True"
    using assms(4) by (simp only: check_memory_pressure_after_redis)
  with chk have p: "p = Return True" by simp
  note k = check_memory_pressure_keeps [OF chk]
  have csg: "consistent sg" using k assms(1) by (simp add: consistent_def)
  have nesg: "models_in_memory sg \<noteq> []" using k assms(2) by simp
  obtain q s2 where ev: "evict_oldest_model e sg = (q, s2)"
    by (cases "evict_oldest_model e sg")
  from evict_oldest_model_removes [OF ev csg nesg] obtain victim evs0
    where v: "min_key (model_last_used sg) = Some victim" "victim \<in> keys (models_in_memory sg)"
      "models_in_memory s2 = AList.delete victim (models_in_memory sg)"
      "trace s2 = trace sg @ Unloaded victim # evs0"
    by blast
  have vn: "victim \<noteq> n" using v(2) k assms(3) by auto
  have t2: "trace s2 = trace s @ RedisGet (metadata_key n) True # Unloaded victim # evs0"
    using v(4) k by simp
  have step: "load_model e cfg n ?s1 =
      (case q of Raise x \<Rightarrow> Some (Raise x, s2) | Return _ \<Rightarrow> load_model e cfg n s2)"
    using chk [unfolded p] nesg ev by (rule load_model_step)
  have "victim \<notin> keys (models_in_memory s') \<and>
        (\<exists>evs. trace s' = trace s @ RedisGet (metadata_key n) True # Unloaded victim # evs)"
  proof (cases q)
    case (Raise x)
    with step g1 have "s' = s2" by simp
    with t2 v(3) show ?thesis by simp
  next
    case (Return u)
    with step g1 have "load_model e cfg n s2 = Some (r, s')" by simp
    from load_model_grows [OF this] obtain evs where "trace s' = trace s2 @ evs"
      and "keys (models_in_memory s') \<subseteq> insert n (keys (models_in_memory s2))"
      by blast
    with t2 v(3) vn show ?thesis by auto
  qed
  with v(1,2) k
  show "\<exists>victim evs.
          min_key (model_last_used s) = Some victim \<and>
          victim \<in> keys (models_in_memory s) \<and>
          victim \<notin> keys (models_in_memory s') \<and>
          trace s' = trace s @ RedisGet (metadata_key n) True # Unloaded victim # evs"
    by auto
next
  assume "1 \<le> model_max_loaded cfg"
  with assms(1) show "\<exists>y. get_model e cfg n s = Some y" by (rule get_model_terminates)
qed

text \<open>
  The theorem on the GPU machine: ANI1x is resident, the gauge reads 0.8 against the
  threshold 0.7, and ANI2x is acquired.
\<close>

theorem pressure_evicts_before_loading_witness:
  "get_model busy_gpu_env default_settings ''ANI2x'' one_loaded
     = Some (Return 2, one_loaded_after_acquire)
   \<and> min_key (model_last_used one_loaded) = Some ''ANI1x''
   \<and> ''ANI1x'' \<notin> keys (models_in_memory one_loaded_after_acquire)
   \<and> take 2 (new_events one_loaded one_loaded_after_acquire)
       = [RedisGet (metadata_key ''ANI2x'') True, Unloaded ''ANI1x'']"
proof -
  have g: "get_model busy_gpu_env default_settings ''ANI2x'' one_loaded
             = Some (Return 2, one_loaded_after_acquire)"
    by code_simp
  note c = consistent_one_loaded
  have ne: "models_in_memory one_loaded \<noteq> []" by (simp add: one_loaded_def)
  have nr: "''ANI2x'' \<notin> keys (models_in_memory one_loaded)"
    by (simp add: one_loaded_def keys_def)
  have pr: "fst (check_memory_pressure busy_gpu_env default_settings one_loaded) = Return True"
    by (simp add: check_memory_pressure_def get_gpu_memory_usage_def busy_gpu_env_def cpu_env_def
        one_loaded_def default_settings_def)
  have rc: "redis_client one_loaded" by (simp add: one_loaded_def)
  have ok: "\<not> redis_raises busy_gpu_env (n_redis one_loaded)"
    by (simp add: busy_gpu_env_def cpu_env_def)
  from pressure_evicts_before_loading [OF c ne nr pr rc ok, THEN conjunct1, rule_format, OF g]
  obtain victim evs where v: "min_key (model_last_used one_loaded) = Some victim"
    "victim \<notin> keys (models_in_memory one_loaded_after_acquire)"
    "trace one_loaded_after_acquire
       = trace one_loaded @ RedisGet (metadata_key ''ANI2x'') True # Unloaded victim # evs"
    by blast
  have "min_key (model_last_used one_loaded) = Some ''ANI1x''"
    by (simp add: one_loaded_def min_key_def)
  with v(1) have "victim = ''ANI1x''" by simp
  with g v show ?thesis by (simp add: new_events_def)
qed

text \<open>
  Claim C5 as stated fails when the store is unreachable: on the GPU machine with ANI1x
  resident and the gauge above the threshold, the acquire of the registered, non-resident
  ANI2x raises at the store read; nothing is evicted and no loader is called.
\<close>

theorem pressure_without_eviction_counterexample:
  "models_in_memory one_loaded \<noteq> []
   \<and> ''ANI2x'' \<notin> keys (models_in_memory one_loaded)
   \<and> known_model ''ANI2x''
   \<and> fst (check_memory_pressure (store_down busy_gpu_env) default_settings one_loaded)
       = Return True
   \<and> get_model (store_down busy_gpu_env) default_settings ''ANI2x'' one_loaded
       = Some (Raise RedisError, one_loaded_store_down)
   \<and> models_in_memory one_loaded_store_down = models_in_memory one_loaded
   \<and> new_events one_loaded one_loaded_store_down = [RedisGet ''model:ANI2x:metadata'' False]"
proof -
  have "get_model (store_down busy_gpu_env) default_settings ''ANI2x'' one_loaded
          = Some (Raise RedisError, one_loaded_store_down)"
    by code_simp
  moreover have "fst (check_memory_pressure (store_down busy_gpu_env) default_settings one_loaded)
          = Return True"
    by (simp add: check_memory_pressure_def get_gpu_memory_usage_def busy_gpu_env_def cpu_env_def
        one_loaded_def default_settings_def store_down_def)
  ultimately show ?thesis
    by (simp add: one_loaded_def one_loaded_store_down_def keys_def known_model_def new_events_def)
qed

text \<open>
  Claim C6, amended. An acquire that returns a handle leaves the model resident under that
  handle. While the model is resident, a further acquire calls no loader and leaves
  \<open>models_in_memory\<close> as it is: it sets the last-used timestamp to the clock's reading,
  asks the store to extend the TTL (the only event it adds), and returns the resident
  handle when that store call returns. When the store call raises (or there is no client)
  the exception goes to the caller, after the timestamp was refreshed.
\<close>

theorem second_acquire_does_not_load:
  "(get_model e cfg n s0 = Some (Return h, s) \<longrightarrow> map_of (models_in_memory s) n = Some h)
   \<and> (map_of (models_in_memory s) n = Some h \<longrightarrow>
        (\<exists>s'. get_model e cfg n s =
                 Some (if redis_client s \<and> \<not> redis_raises e (n_redis s) then Return h
                       else Raise (if redis_client s then RedisError else AttributeError), s')
             \<and> models_in_memory s' = models_in_memory s
             \<and> model_last_used s'
                 = AList.update n (time_time e (n_time s)) (model_last_used s)
             \<and> n_torch s' = n_torch s
             \<and> new_events s s'
                 = (if redis_client s
                    then [RedisExpire (metadata_key n) (redis_model_ttl cfg)
                            (\<not> redis_raises e (n_redis s))]
                    else [])))"
proof (intro conjI impI)
  assume "get_model e cfg n s0 = Some (Return h, s)"
  then show "map_of (models_in_memory s) n = Some h" by (rule get_model_returns_resident)
next
  assume h: "map_of (models_in_memory s) n = Some h"
  then have "n \<in> keys (models_in_memory s)"
    using map_of_keys [of "models_in_memory s" n] by simp
  from get_model_resident [OF this, of e cfg] h
  show "\<exists>s'. get_model e cfg n s =
                 Some (if redis_client s \<and> \<not> redis_raises e (n_redis s) then Return h
                       else Raise (if redis_client s then RedisError else AttributeError), s')
             \<and> models_in_memory s' = models_in_memory s
             \<and> model_last_used s'
                 = AList.update n (time_time e (n_time s)) (model_last_used s)
             \<and> n_torch s' = n_torch s
             \<and> new_events s s'
                 = (if redis_client s
                    then [RedisExpire (metadata_key n) (redis_model_ttl cfg)
                            (\<not> redis_raises e (n_redis s))]
                    else [])"
    by (simp add: redis_call_def Let_def new_events_def)
qed

text \<open>The theorem on the CPU machine: ANI2x is acquired twice in a row.\<close>

theorem second_acquire_does_not_load_witness:
  "get_model cpu_env default_settings ''ANI2x'' connected = Some (Return 0, after_first_acquire)
   \<and> map_option fst (get_model cpu_env default_settings ''ANI2x'' after_first_acquire)
       = Some (Return 0)
   \<and> map_option (models_in_memory \<circ> snd)
        (get_model cpu_env default_settings ''ANI2x'' after_first_acquire)
       = Some [(''ANI2x'', 0)]
   \<and> map_option (new_events after_first_acquire \<circ> snd)
        (get_model cpu_env default_settings ''ANI2x'' after_first_acquire)
       = Some [RedisExpire ''model:ANI2x:metadata'' 300 True]"
proof -
  have g: "get_model cpu_env default_settings ''ANI2x'' connected
             = Some (Return 0, after_first_acquire)"
    by code_simp
  note t = second_acquire_does_not_load
             [of cpu_env default_settings "''ANI2x''" connected 0 after_first_acquire]
  from t [THEN conjunct1] g
  have "map_of (models_in_memory after_first_acquire) ''ANI2x'' = Some 0" by simp
  with t [THEN conjunct2] obtain s'
    where "get_model cpu_env default_settings ''ANI2x'' after_first_acquire =
             Some (if redis_client after_first_acquire \<and>
                      \<not> redis_raises cpu_env (n_redis after_first_acquire) then Return 0
                   else Raise (if redis_client after_first_acquire then RedisError
                               else AttributeError), s')"
      and "models_in_memory s' = models_in_memory after_first_acquire"
      and "new_events after_first_acquire s'
             = (if redis_client after_first_acquire
                then [RedisExpire (metadata_key ''ANI2x'') (redis_model_ttl default_settings)
                        (\<not> redis_raises cpu_env (n_redis after_first_acquire))]
                else [])"
    by blast
  with g show ?thesis
    by (simp add: after_first_acquire_def connected_def cpu_env_def default_settings_def
        metadata_key_def)
qed

text \<open>
  Claim C6 as stated fails when the store stops answering between the two acquires: the
  first acquire of ANI2x loads it and returns the handle 0; nothing is evicted; the second
  acquire raises the store's exception instead of returning the handle.
\<close>

theorem second_acquire_raises_counterexample:
  "get_model flaky_store_env default_settings ''ANI2x'' connected
     = Some (Return 0, after_first_acquire)
   \<and> get_model flaky_store_env default_settings ''ANI2x'' after_first_acquire
     = Some (Raise RedisError, after_second_acquire)"
  by code_simp






text \<open>
  Claim C2, amended. The release never calls the store, and neither does the evict of a
  name that is not resident: they do the same whatever the store does. No store error is
  caught anywhere else. An evict of a resident model (with consistent bookkeeping and a
  client) removes the entry from both dictionaries and then raises the store's exception
  when the delete raises, and returns when it does not. Whenever a store call made during
  an acquire raises, the acquire raises the store's exception. What the manager holds then
  depends on the call that failed: when it is the acquire's first store call,
  \<open>models_in_memory\<close> is as it was; when it is the delete of an eviction inside the
  acquire (the bookkeeping being consistent before the call), the evicted model is gone
  from both dictionaries and nothing was loaded; when it is the \<^verbatim>\<open>setex\<close> after a load,
  the model is loaded and stays in both dictionaries.
\<close>

theorem store_errors_reach_the_caller:
  "release (e\<lparr>redis_raises := f\<rparr>) n s = release e n s
   \<and> (n \<notin> keys (models_in_memory s) \<longrightarrow> unload_model e n s = (Return (), s))
   \<and> (n \<in> keys (models_in_memory s) \<and> consistent s \<and> redis_client s \<longrightarrow>
        fst (unload_model e n s)
          = (if redis_raises e (n_redis s) then Raise RedisError else Return ())
        \<and> models_in_memory (snd (unload_model e n s)) = AList.delete n (models_in_memory s)
        \<and> model_last_used (snd (unload_model e n s)) = AList.delete n (model_last_used s))
   \<and> (get_model e cfg n s = Some (r, s') \<and> store_failed (new_events s s') \<longrightarrow>
        r = Raise RedisError)
   \<and> (redis_client s \<and> redis_raises e (n_redis s) \<longrightarrow>
        (\<exists>s''. get_model e cfg n s = Some (Raise RedisError, s'')
            \<and> models_in_memory s'' = models_in_memory s))
   \<and> (get_model e cfg n s = Some (r, s') \<and> consistent s \<and> delete_failed v (new_events s s') \<longrightarrow>
        r = Raise RedisError
        \<and> v \<in> keys (models_in_memory s)
        \<and> v \<notin> keys (models_in_memory s') \<and> v \<notin> keys (model_last_used s')
        \<and> keys (models_in_memory s') \<subseteq> keys (models_in_memory s))
   \<and> (get_model e cfg n s = Some (r, s') \<and> setex_failed (new_events s s') \<longrightarrow>
        r = Raise RedisError
        \<and> n \<in> keys (models_in_memory s') \<and> n \<in> keys (model_last_used s'))"
proof (intro conjI impI)
  show "release (e\<lparr>redis_raises := f\<rparr>) n s = release e n s"
    by (simp add: release_def now_def)
  show "unload_model e n s = (Return (), s)" if "n \<notin> keys (models_in_memory s)"
    using that by (simp add: unload_model_def)
  show "fst (unload_model e n s)
          = (if redis_raises e (n_redis s) then Raise RedisError else Return ())"
    if "n \<in> keys (models_in_memory s) \<and> consistent s \<and> redis_client s"
    using that by (auto simp add: unload_model_def redis_call_def Let_def consistent_def)
  show "models_in_memory (snd (unload_model e n s)) = AList.delete n (models_in_memory s)"
    if "n \<in> keys (models_in_memory s) \<and> consistent s \<and> redis_client s"
    using unload_model_models [OF surjective_pairing] .
  show "model_last_used (snd (unload_model e n s)) = AList.delete n (model_last_used s)"
    if "n \<in> keys (models_in_memory s) \<and> consistent s \<and> redis_client s"
    using unload_model_last_used [OF surjective_pairing] that by blast
  show "\<exists>s''. get_model e cfg n s = Some (Raise RedisError, s'')
            \<and> models_in_memory s'' = models_in_memory s"
    if a: "redis_client s \<and> redis_raises e (n_redis s)"
  proof (cases "n \<in> keys (models_in_memory s)")
    case True
    with a show ?thesis
      by (simp add: get_model_resident redis_call_def Let_def)
  next
    case False
    with a show ?thesis
      by (simp add: get_model_absent redis_call_def Let_def)
  qed
next
  assume a: "get_model e cfg n s = Some (r, s') \<and> store_failed (new_events s s')"
  then have g: "get_model e cfg n s = Some (r, s')" ..
  from get_model_store [OF g] a show "r = Raise RedisError"
    by (auto simp: new_events_append)
next
  assume a: "get_model e cfg n s = Some (r, s') \<and> consistent s
               \<and> delete_failed v (new_events s s')"
  then have g: "get_model e cfg n s = Some (r, s')" ..
  from get_model_store [OF g] obtain evs where t: "trace s' = trace s @ evs"
    and f: "store_failed evs \<longrightarrow> r = Raise RedisError"
    and d: "\<forall>v. delete_failed v evs \<longrightarrow>
                v \<in> keys (models_in_memory s) \<and> v \<notin> keys (models_in_memory s') \<and>
                keys (models_in_memory s') \<subseteq> keys (models_in_memory s) \<and>
                (consistent s \<longrightarrow> v \<notin> keys (model_last_used s'))"
    by blast
  from a t have df: "delete_failed v evs" by (simp add: new_events_append)
  then have "store_failed evs" by (rule delete_failed_store_failed)
  with f show "r = Raise RedisError" by simp
  from d df show "v \<in> keys (models_in_memory s)" by blast
  from d df show "v \<notin> keys (models_in_memory s')" by blast
  from d df a show "v \<notin> keys (model_last_used s')" by blast
  from d df show "keys (models_in_memory s') \<subseteq> keys (models_in_memory s)" by blast
next
  assume a: "get_model e cfg n s = Some (r, s') \<and> setex_failed (new_events s s')"
  then have g: "get_model e cfg n s = Some (r, s')" ..
  from get_model_store [OF g] obtain evs where t: "trace s' = trace s @ evs"
    and f: "store_failed evs \<longrightarrow> r = Raise RedisError"
    and x: "setex_failed evs \<longrightarrow>
                n \<in> keys (models_in_memory s') \<and> n \<in> keys (model_last_used s')"
    by blast
  from a t have sf: "setex_failed evs" by (simp add: new_events_append)
  then have "store_failed evs"
    by (auto simp: setex_failed_def store_failed_def list_ex_iff)
  with f show "r = Raise RedisError" by simp
  from x sf show "n \<in> keys (models_in_memory s')" by blast
  from x sf show "n \<in> keys (model_last_used s')" by blast
qed

text \<open>
  The theorem on the CPU machine: with the store unreachable at the manager that holds
  ANI1x and ANI2x; with the store failing at the delete of the eviction that the acquire
  of ANI1ccx makes there; and with the store failing at the \<^verbatim>\<open>setex\<close> of the first load of
  ANI2x.
\<close>

theorem store_errors_reach_the_caller_witness:
  "fst (unload_model (store_down cpu_env) ''ANI2x'' two_loaded) = Raise RedisError
   \<and> models_in_memory (snd (unload_model (store_down cpu_env) ''ANI2x'' two_loaded))
       = [(''ANI1x'', 0)]
   \<and> model_last_used (snd (unload_model (store_down cpu_env) ''ANI2x'' two_loaded))
       = [(''ANI1x'', 0)]
   \<and> unload_model (store_down cpu_env) ''ANI1ccx'' two_loaded = (Return (), two_loaded)
   \<and> release (store_down cpu_env) ''ANI1x'' two_loaded = release cpu_env ''ANI1x'' two_loaded
   \<and> (\<exists>s'. get_model (store_down cpu_env) default_settings ''ANI1ccx'' two_loaded
              = Some (Raise RedisError, s')
          \<and> models_in_memory s' = models_in_memory two_loaded)
   \<and> get_model (store_fails_at 5 cpu_env) default_settings ''ANI1ccx'' two_loaded
       = Some (Raise RedisError, two_loaded_after_failed_delete)
   \<and> ''ANI1x'' \<notin> keys (models_in_memory two_loaded_after_failed_delete)
   \<and> ''ANI1x'' \<notin> keys (model_last_used two_loaded_after_failed_delete)
   \<and> get_model (store_fails_at 1 cpu_env) default_settings ''ANI2x'' connected
       = Some (Raise RedisError, after_failed_setex)
   \<and> ''ANI2x'' \<in> keys (models_in_memory after_failed_setex)
   \<and> ''ANI2x'' \<in> keys (model_last_used after_failed_setex)"
proof -
  note t = store_errors_reach_the_caller
             [where e = "store_down cpu_env" and s = two_loaded and cfg = default_settings]
  have r: "release (store_down cpu_env) ''ANI1x'' two_loaded = release cpu_env ''ANI1x'' two_loaded"
    using store_errors_reach_the_caller
            [where e = cpu_env and f = "\<lambda>_. True" and n = "''ANI1x''" and s = two_loaded,
             THEN conjunct1]
    by (simp add: store_down_def)
  have rc: "redis_client two_loaded \<and> redis_raises (store_down cpu_env) (n_redis two_loaded)"
    by (simp add: two_loaded_def store_down_def)
  have m: "''ANI2x'' \<in> keys (models_in_memory two_loaded)
           \<and> consistent two_loaded \<and> redis_client two_loaded"
    using consistent_two_loaded by (simp add: two_loaded_def keys_def)
  have a: "''ANI1ccx'' \<notin> keys (models_in_memory two_loaded)"
    by (simp add: two_loaded_def keys_def)
  from t [THEN conjunct2, THEN conjunct2, THEN conjunct1, rule_format, OF m] rc
  have u: "fst (unload_model (store_down cpu_env) ''ANI2x'' two_loaded) = Raise RedisError"
    "models_in_memory (snd (unload_model (store_down cpu_env) ''ANI2x'' two_loaded))
       = [(''ANI1x'', 0)]"
    "model_last_used (snd (unload_model (store_down cpu_env) ''ANI2x'' two_loaded))
       = [(''ANI1x'', 0)]"
    by (simp_all add: two_loaded_def)
  from t [THEN conjunct2, THEN conjunct1, rule_format, OF a]
  have v: "unload_model (store_down cpu_env) ''ANI1ccx'' two_loaded = (Return (), two_loaded)" .
  from t [THEN conjunct2, THEN conjunct2, THEN conjunct2, THEN conjunct2, THEN conjunct1,
          rule_format, OF rc]
  have g: "\<exists>s'. get_model (store_down cpu_env) default_settings ''ANI1ccx'' two_loaded
              = Some (Raise RedisError, s')
          \<and> models_in_memory s' = models_in_memory two_loaded" .
  have gd: "get_model (store_fails_at 5 cpu_env) default_settings ''ANI1ccx'' two_loaded
              = Some (Raise RedisError, two_loaded_after_failed_delete)"
    by code_simp
  have hd: "get_model (store_fails_at 5 cpu_env) default_settings ''ANI1ccx'' two_loaded
              = Some (Raise RedisError, two_loaded_after_failed_delete)
            \<and> consistent two_loaded
            \<and> delete_failed ''ANI1x'' (new_events two_loaded two_loaded_after_failed_delete)"
    using gd consistent_two_loaded
    by (simp add: delete_failed_def new_events_def two_loaded_def
        two_loaded_after_failed_delete_def metadata_key_def)
  from store_errors_reach_the_caller
         [where e = "store_fails_at 5 cpu_env" and s = two_loaded and cfg = default_settings
            and n = "''ANI1ccx''" and v = "''ANI1x''" and r = "Raise RedisError"
            and s' = two_loaded_after_failed_delete,
          THEN conjunct2, THEN conjunct2, THEN conjunct2, THEN conjunct2, THEN conjunct2,
          THEN conjunct1, rule_format, OF hd]
  have d: "''ANI1x'' \<notin> keys (models_in_memory two_loaded_after_failed_delete)"
    "''ANI1x'' \<notin> keys (model_last_used two_loaded_after_failed_delete)"
    by simp_all
  have gs: "get_model (store_fails_at 1 cpu_env) default_settings ''ANI2x'' connected
              = Some (Raise RedisError, after_failed_setex)"
    by code_simp
  have hs: "get_model (store_fails_at 1 cpu_env) default_settings ''ANI2x'' connected
              = Some (Raise RedisError, after_failed_setex)
            \<and> setex_failed (new_events connected after_failed_setex)"
    using gs
    by (simp add: setex_failed_def new_events_def connected_def after_failed_setex_def
        is_setex_event_def is_store_failure_def)
  from store_errors_reach_the_caller
         [where e = "store_fails_at 1 cpu_env" and s = connected and cfg = default_settings
            and n = "''ANI2x''" and r = "Raise RedisError" and s' = after_failed_setex,
          THEN conjunct2, THEN conjunct2, THEN conjunct2, THEN conjunct2, THEN conjunct2,
          THEN conjunct2, rule_format, OF hs]
  have x: "''ANI2x'' \<in> keys (models_in_memory after_failed_setex)"
    "''ANI2x'' \<in> keys (model_last_used after_failed_setex)"
    by simp_all
  from u v r g gd d gs x show ?thesis by (intro conjI)
qed

text \<open>
  Claim C2 as stated fails: on the CPU machine with ANI1x and ANI2x resident, the evict of
  ANI2x returns when the store answers and raises when the store is unreachable, and the
  acquire of ANI2x returns its handle when the store answers and raises when it is
  unreachable. No store error is caught.
\<close>

theorem store_failure_changes_outcome_counterexample:
  "unload_model cpu_env ''ANI2x'' two_loaded = (Return (), two_loaded_evict_store_up)
   \<and> unload_model (store_down cpu_env) ''ANI2x'' two_loaded
       = (Raise RedisError, two_loaded_evict_store_down)
   \<and> map_option fst (get_model cpu_env default_settings ''ANI2x'' two_loaded)
       = Some (Return 2)
   \<and> map_option fst (get_model (store_down cpu_env) default_settings ''ANI2x'' two_loaded)
       = Some (Raise RedisError)"
  by code_simp

text \<open>
  Claim C3 fails on the code. \<open>load_model\<close> runs its two eviction loops before it looks at
  the name, so an acquire of a name without a constructor raises only after the loops
  ran. With the default limit of two and ANI1x and ANI2x resident, the acquire of
  \<open>''unregistered''\<close> evicts ANI1x and then raises \<^verbatim>\<open>ValueError\<close>.
\<close>

theorem unknown_model_evicts_before_raising:
  "\<not> known_model ''unregistered''
   \<and> get_model cpu_env default_settings ''unregistered'' two_loaded
       = Some (Raise (ValueError ''Unknown model: unregistered''), two_loaded_after_unknown)
   \<and> models_in_memory two_loaded = [(''ANI1x'', 0), (''ANI2x'', 2)]
   \<and> models_in_memory two_loaded_after_unknown = [(''ANI2x'', 2)]"
proof -
  have "get_model cpu_env default_settings ''unregistered'' two_loaded
          = Some (Raise (ValueError ''Unknown model: unregistered''), two_loaded_after_unknown)"
    by code_simp
  then show ?thesis
    by (simp add: known_model_def two_loaded_def two_loaded_after_unknown_def)
qed

end
